theory Spec2Isabelle
  imports Complex_Main
begin

section \<open>JavaScript values used by the calculator\<close>

text \<open>
  The calculator of \<^verbatim>\<open>src/main.js\<close> works on two kinds of JavaScript values: strings
  and numbers. Strings are modelled as lists of characters with a code below 256; the
  program compares characters only with digits, the point, the four operators and the
  two brackets. Numbers are IEEE 754 binary64 values: not-a-number,
  the two infinities, negative zero, and the finite values, each finite value being held
  as the rational number it denotes (\<open>Fin 0\<close> is positive zero). Every arithmetic result
  is rounded to the nearest representable value, ties to even, as the language requires.
\<close>

datatype jsnum = NaN | PInf | NInf | NZero | Fin rat

datatype jsval = Num jsnum | Str string

text \<open>The only exception the program throws is \<^verbatim>\<open>new Error(message)\<close>.\<close>

datatype error = Error string

subsection \<open>Rounding a rational to binary64\<close>

fun bitlen :: "nat \<Rightarrow> nat" where
  "bitlen n = (if n = 0 then 0 else Suc (bitlen (n div 2)))"

declare bitlen.simps [simp del]

definition pow2 :: "int \<Rightarrow> rat" where
  "pow2 e = (if 0 \<le> e then 2 ^ nat e else 1 / 2 ^ nat (- e))"

definition pow10 :: "int \<Rightarrow> rat" where
  "pow10 e = (if 0 \<le> e then 10 ^ nat e else 1 / 10 ^ nat (- e))"

text \<open>For \<open>a > 0\<close>, the integer \<open>e\<close> with \<open>2^e \<le> a < 2^(e+1)\<close>.\<close>

definition floor_log2 :: "rat \<Rightarrow> int" where
  "floor_log2 a = (if 1 \<le> a then int (bitlen (nat \<lfloor>a\<rfloor>)) - 1
                   else - int (bitlen (nat (\<lceil>1 / a\<rceil> - 1))))"

definition round_half_even :: "rat \<Rightarrow> int" where
  "round_half_even m = (let f = \<lfloor>m\<rfloor>; d = m - of_int f in
     if d < 1 / 2 then f else if 1 / 2 < d then f + 1
     else if even f then f else f + 1)"

text \<open>
  The magnitude \<open>a > 0\<close> rounded to 53 significant bits, or to a multiple of \<open>2^-1074\<close>
  in the subnormal range.
\<close>

definition round_mag :: "rat \<Rightarrow> rat" where
  "round_mag a = (let p = max (floor_log2 a - 52) (- 1074) in
     of_int (round_half_even (a / pow2 p)) * pow2 p)"

text \<open>
  The number with sign \<open>neg\<close> and exact magnitude \<open>a \<ge> 0\<close>, as a binary64 value: a
  magnitude that rounds to \<open>2^1024\<close> or more is an infinity.
\<close>

definition to_double :: "bool \<Rightarrow> rat \<Rightarrow> jsnum" where
  "to_double neg a = (if a = 0 then (if neg then NZero else Fin 0) else
     (let r = round_mag a in
      if r = 0 then (if neg then NZero else Fin 0)
      else if 1024 \<le> floor_log2 r then (if neg then NInf else PInf)
      else Fin (if neg then - r else r)))"

subsection \<open>Arithmetic on numbers\<close>

fun is_neg :: "jsnum \<Rightarrow> bool" where
  "is_neg NInf = True"
| "is_neg NZero = True"
| "is_neg (Fin q) = (q < 0)"
| "is_neg _ = False"

fun fin_val :: "jsnum \<Rightarrow> rat" where
  "fin_val (Fin q) = q"
| "fin_val _ = 0"

fun is_finite :: "jsnum \<Rightarrow> bool" where
  "is_finite (Fin q) = True"
| "is_finite NZero = True"
| "is_finite _ = False"

text \<open>\<^verbatim>\<open>b === 0\<close>: strict equality with zero holds for both zeros.\<close>

definition is_zero :: "jsnum \<Rightarrow> bool" where
  "is_zero b = (b = Fin 0 \<or> b = NZero)"

definition inf_of :: "bool \<Rightarrow> jsnum" where
  "inf_of neg = (if neg then NInf else PInf)"

fun js_neg :: "jsnum \<Rightarrow> jsnum" where
  "js_neg NaN = NaN"
| "js_neg PInf = NInf"
| "js_neg NInf = PInf"
| "js_neg NZero = Fin 0"
| "js_neg (Fin q) = (if q = 0 then NZero else Fin (- q))"

text \<open>\<^verbatim>\<open>a + b\<close>\<close>

definition js_add :: "jsnum \<Rightarrow> jsnum \<Rightarrow> jsnum" where
  "js_add x y =
     (if x = NaN \<or> y = NaN then NaN
      else if \<not> is_finite x \<and> \<not> is_finite y then (if x = y then x else NaN)
      else if \<not> is_finite x then x
      else if \<not> is_finite y then y
      else if x = NZero \<and> y = NZero then NZero
      else (let s = fin_val x + fin_val y in
            if s = 0 then Fin 0 else to_double (s < 0) \<bar>s\<bar>))"

text \<open>\<^verbatim>\<open>a - b\<close>\<close>

definition js_sub :: "jsnum \<Rightarrow> jsnum \<Rightarrow> jsnum" where
  "js_sub x y = js_add x (js_neg y)"

text \<open>\<^verbatim>\<open>a * b\<close>\<close>

definition js_mul :: "jsnum \<Rightarrow> jsnum \<Rightarrow> jsnum" where
  "js_mul x y =
     (if x = NaN \<or> y = NaN then NaN
      else if \<not> is_finite x \<or> \<not> is_finite y then
        (if is_zero x \<or> is_zero y then NaN else inf_of (is_neg x \<noteq> is_neg y))
      else to_double (is_neg x \<noteq> is_neg y) (\<bar>fin_val x\<bar> * \<bar>fin_val y\<bar>))"

text \<open>\<^verbatim>\<open>a / b\<close>\<close>

definition js_div :: "jsnum \<Rightarrow> jsnum \<Rightarrow> jsnum" where
  "js_div x y =
     (if x = NaN \<or> y = NaN then NaN
      else if \<not> is_finite x then
        (if \<not> is_finite y then NaN else inf_of (is_neg x \<noteq> is_neg y))
      else if \<not> is_finite y then to_double (is_neg x \<noteq> is_neg y) 0
      else if is_zero y then
        (if is_zero x then NaN else inf_of (is_neg x \<noteq> is_neg y))
      else to_double (is_neg x \<noteq> is_neg y) (\<bar>fin_val x\<bar> / \<bar>fin_val y\<bar>))"

subsection \<open>Strings and numbers\<close>

definition is_digit :: "char \<Rightarrow> bool" where
  "is_digit c = (c \<in> set ''0123456789'')"

definition digit_val :: "char \<Rightarrow> nat" where
  "digit_val c = of_char c - 48"

definition digits_val :: "string \<Rightarrow> nat" where
  "digits_val ds = foldl (\<lambda>a c. 10 * a + digit_val c) 0 ds"

text \<open>
  White space and line terminators that \<^verbatim>\<open>parseFloat\<close> skips at the start of its
  argument (those with a code below 256).
\<close>

definition is_white_space :: "char \<Rightarrow> bool" where
  "is_white_space c = (of_char c \<in> {9, 10, 11, 12, 13, 32, 160 :: nat})"

fun parse_sign :: "string \<Rightarrow> bool \<times> string" where
  "parse_sign [] = (False, [])"
| "parse_sign (c # cs) =
     (if c = CHR ''-'' then (True, cs)
      else if c = CHR ''+'' then (False, cs)
      else (False, c # cs))"

text \<open>
  The value of the exponent part \<^verbatim>\<open>e[+-]digits\<close> at the start of a string, and 0
  when the string does not start with a complete exponent part.
\<close>

fun parse_exponent :: "string \<Rightarrow> int" where
  "parse_exponent [] = 0"
| "parse_exponent (c # cs) =
     (if c = CHR ''e'' \<or> c = CHR ''E'' then
        (let (neg, r) = parse_sign cs; ds = takeWhile is_digit r in
         if ds = [] then 0
         else if neg then - int (digits_val ds) else int (digits_val ds))
      else 0)"

text \<open>
  The built-in \<^verbatim>\<open>parseFloat\<close>: skip leading white space, take the longest prefix
  that is a decimal literal (optional sign, then \<^verbatim>\<open>Infinity\<close>, or digits with an
  optional fraction and an optional exponent), and round its value to a number; the
  result is \<^verbatim>\<open>NaN\<close> when no prefix is a literal.
\<close>

definition parseFloat :: "string \<Rightarrow> jsnum" where
  "parseFloat input =
     (let (neg, s) = parse_sign (dropWhile is_white_space input) in
      if take 8 s = ''Infinity'' then inf_of neg
      else
        (let ip = takeWhile is_digit s;
             r1 = dropWhile is_digit s;
             (fp, r2) = (case r1 of
                           [] \<Rightarrow> ([], [])
                         | c # t \<Rightarrow> if c = CHR ''.''
                                    then (takeWhile is_digit t, dropWhile is_digit t)
                                    else ([], r1))
         in if ip = [] \<and> fp = [] then NaN
            else to_double neg
                   (of_nat (digits_val (ip @ fp)) / 10 ^ length fp * pow10 (parse_exponent r2))))"

definition digit_char :: "nat \<Rightarrow> char" where
  "digit_char d = ''0123456789'' ! d"

fun digit_chars :: "nat \<Rightarrow> string" where
  "digit_chars n = (if n < 10 then [digit_char n]
                    else digit_chars (n div 10) @ [digit_char (n mod 10)])"

declare digit_chars.simps [simp del]

text \<open>The number of decimal digits of \<open>n\<close> (0 for 0).\<close>

fun declen :: "nat \<Rightarrow> nat" where
  "declen n = (if n = 0 then 0 else Suc (declen (n div 10)))"

declare declen.simps [simp del]

text \<open>For \<open>x > 0\<close>, the integer \<open>n\<close> with \<open>10^(n-1) \<le> x < 10^n\<close>.\<close>

definition dec_exponent :: "rat \<Rightarrow> int" where
  "dec_exponent x = (if 1 \<le> x then int (declen (nat \<lfloor>x\<rfloor>))
                     else 1 - int (declen (nat (\<lceil>1 / x\<rceil> - 1))))"

text \<open>
  The digits of \<^verbatim>\<open>Number::toString\<close>: for a finite \<open>x > 0\<close>, the pair \<open>(s, n)\<close> with the
  fewest digits \<open>k\<close> such that \<open>s * 10^(n-k)\<close> rounds to \<open>x\<close>, the closest to \<open>x\<close> when
  there are two. The search starts at \<open>k\<close> digits and tries \<open>fuel\<close> lengths; 17 digits
  always identify a binary64 value.
\<close>

fun shortest_digits :: "rat \<Rightarrow> int \<Rightarrow> nat \<Rightarrow> nat \<Rightarrow> nat \<times> int" where
  "shortest_digits x n0 k 0 = (nat \<lfloor>x / pow10 (n0 - int k)\<rfloor>, n0)"
| "shortest_digits x n0 k (Suc fuel) =
     (let scale = pow10 (n0 - int k);
          lo = \<lfloor>x / scale\<rfloor>;
          hi = lo + 1;
          ok_lo = (to_double False (of_int lo * scale) = Fin x);
          ok_hi = (to_double False (of_int hi * scale) = Fin x);
          dlo = x - of_int lo * scale;
          dhi = of_int hi * scale - x
      in if ok_lo \<and> (\<not> ok_hi \<or> dlo < dhi \<or> (dlo = dhi \<and> even lo)) then (nat lo, n0)
         else if ok_hi then (if hi = 10 ^ k then (10 ^ (k - 1), n0 + 1) else (nat hi, n0))
         else shortest_digits x n0 (Suc k) fuel)"

text \<open>The text of a finite \<open>x > 0\<close>, from its digits \<open>s\<close> and its decimal exponent \<open>n\<close>.\<close>

definition format_digits :: "nat \<Rightarrow> int \<Rightarrow> string" where
  "format_digits s n =
     (let ds = digit_chars s; k = int (length ds) in
      if k \<le> n \<and> n \<le> 21 then ds @ replicate (nat (n - k)) CHR ''0''
      else if 0 < n \<and> n \<le> 21 then take (nat n) ds @ ''.'' @ drop (nat n) ds
      else if - 6 < n \<and> n \<le> 0 then ''0.'' @ replicate (nat (- n)) CHR ''0'' @ ds
      else
        (let e = n - 1;
             es = (if e < 0 then ''-'' else ''+'') @ digit_chars (nat \<bar>e\<bar>)
         in if k = 1 then ds @ ''e'' @ es
            else take 1 ds @ ''.'' @ drop 1 ds @ ''e'' @ es))"

text \<open>\<^verbatim>\<open>Number::toString\<close>, the text of a number in a template or a concatenation.\<close>

fun number_to_string :: "jsnum \<Rightarrow> string" where
  "number_to_string NaN = ''NaN''"
| "number_to_string PInf = ''Infinity''"
| "number_to_string NInf = ''-Infinity''"
| "number_to_string NZero = ''0''"
| "number_to_string (Fin q) =
     (if q = 0 then ''0''
      else (let (s, n) = shortest_digits \<bar>q\<bar> (dec_exponent \<bar>q\<bar>) 1 17
            in (if q < 0 then ''-'' else []) @ format_digits s n))"

text \<open>\<^verbatim>\<open>`${v}`\<close> and \<^verbatim>\<open>'' + v\<close>: a string is itself, a number is its text.\<close>

fun to_string :: "jsval \<Rightarrow> string" where
  "to_string (Str s) = s"
| "to_string (Num n) = number_to_string n"

text \<open>\<^verbatim>\<open>`${error}`\<close> for an \<^verbatim>\<open>Error\<close> object.\<close>

fun error_to_string :: "error \<Rightarrow> string" where
  "error_to_string (Error msg) = ''Error: '' @ msg"

section \<open>The calculator\<close>

subsection \<open>\<^verbatim>\<open>solve\<close>: one precedence level\<close>

text \<open>The three variables of the scanning loop of \<^verbatim>\<open>solve\<close>.\<close>

record scan_state =
  detectedNums :: "jsnum list"
  operations :: "char list"
  numString :: string

text \<open>Their values before the loop.\<close>

abbreviation scan_init :: scan_state where
  "scan_init \<equiv> \<lparr>detectedNums = [], operations = [], numString = []\<rparr>"

text \<open>
  \<^verbatim>\<open>for (const char of expr)\<close>: a character that is not a supported operator is added
  to the number string; a supported operator closes the number string, which is parsed
  and pushed, and is recorded.
\<close>

fun scan_loop :: "char list \<Rightarrow> string \<Rightarrow> scan_state \<Rightarrow> scan_state" where
  "scan_loop supportedOperators [] st = st"
| "scan_loop supportedOperators (c # cs) st =
     scan_loop supportedOperators cs
       (if c \<notin> set supportedOperators
        then st\<lparr>numString := numString st @ [c]\<rparr>
        else st\<lparr>detectedNums := detectedNums st @ [parseFloat (numString st)],
                operations := operations st @ [c],
                numString := []\<rparr>)"

text \<open>\<^verbatim>\<open>/[^0-9.]/.test(s)\<close>: some character is neither a digit nor a point.\<close>

definition non_numeric_test :: "string \<Rightarrow> bool" where
  "non_numeric_test s = list_ex (\<lambda>c. \<not> is_digit c \<and> c \<noteq> CHR ''.'') s"

type_synonym callback = "jsnum \<Rightarrow> jsnum \<Rightarrow> char \<Rightarrow> error + jsnum"

text \<open>
  \<^verbatim>\<open>for (let i = 1; i < detectedNums.length; i++)\<close>: the result so far is combined
  with the next number and the operator between them; an exception thrown by the callback
  leaves the loop.
\<close>

function fold_loop :: "callback \<Rightarrow> jsnum list \<Rightarrow> char list \<Rightarrow> nat \<Rightarrow> jsnum \<Rightarrow> error + jsnum" where
  "fold_loop operateCallback nums ops i result =
     (if i < length nums then
        (case operateCallback result (nums ! i) (ops ! (i - 1)) of
           Inl e \<Rightarrow> Inl e
         | Inr r \<Rightarrow> fold_loop operateCallback nums ops (i + 1) r)
      else Inr result)"
  by pat_completeness auto
termination
  by (relation "measure (\<lambda>(cb, nums, ops, i, result). length nums - i)") auto

declare fold_loop.simps [simp del]

definition solve :: "jsval \<Rightarrow> char list \<Rightarrow> callback \<Rightarrow> error + jsval" where
  "solve expr0 supportedOperators operateCallback =
     (let expr = to_string expr0;
          st = scan_loop supportedOperators expr scan_init
      in if non_numeric_test (numString st) then Inr (Str expr)
         else
           (let nums = detectedNums st @ [parseFloat (numString st)] in
            case fold_loop operateCallback nums (operations st) 1 (nums ! 0) of
              Inl e \<Rightarrow> Inl e
            | Inr result \<Rightarrow> Inr (Num result)))"

text \<open>The callback of \<^verbatim>\<open>computeMD\<close>.\<close>

definition operateMD :: callback where
  "operateMD a b operator =
     (if operator = CHR ''*'' then Inr (js_mul a b)
      else if is_zero b then Inl (Error ''Cannot divide by zero'')
      else Inr (js_div a b))"

definition computeMD :: "jsval \<Rightarrow> error + jsval" where
  "computeMD expr = solve expr ''*/'' operateMD"

text \<open>The callback of \<^verbatim>\<open>computeAS\<close>.\<close>

definition operateAS :: callback where
  "operateAS a b operator =
     (if operator = CHR ''+'' then Inr (js_add a b) else Inr (js_sub a b))"

definition computeAS :: "jsval \<Rightarrow> error + jsval" where
  "computeAS expr = solve expr ''+-'' operateAS"

subsection \<open>\<^verbatim>\<open>__findInnermostBrackets\<close>\<close>

text \<open>\<^verbatim>\<open>s.indexOf(c, from)\<close>: the first index from \<open>from\<close> on that holds \<open>c\<close>, or -1.\<close>

definition indexOf :: "string \<Rightarrow> char \<Rightarrow> nat \<Rightarrow> int" where
  "indexOf s c from =
     (if c \<in> set (drop from s)
      then int (from + length (takeWhile (\<lambda>x. x \<noteq> c) (drop from s)))
      else - 1)"

record brackets =
  openBracket :: nat
  closedBracket :: nat

text \<open>
  \<^verbatim>\<open>for (let i = expr.length - 1; i >= 0; i--)\<close>: the second argument is \<open>i + 1\<close>, the
  number of positions still to visit.
\<close>

fun find_loop :: "string \<Rightarrow> nat \<Rightarrow> brackets option" where
  "find_loop expr 0 = None"
| "find_loop expr (Suc i) =
     (if expr ! i = CHR ''('' then
        (let closedBracket = indexOf expr CHR '')'' i in
         if closedBracket \<noteq> - 1
         then Some \<lparr>openBracket = i, closedBracket = nat closedBracket\<rparr>
         else find_loop expr i)
      else find_loop expr i)"

definition findInnermostBrackets :: "string \<Rightarrow> brackets option" where
  "findInnermostBrackets expr = find_loop expr (length expr)"

text \<open>\<^verbatim>\<open>s.slice(a, b)\<close> and \<^verbatim>\<open>s.slice(a)\<close> for indices that are not negative.\<close>

definition slice :: "string \<Rightarrow> nat \<Rightarrow> nat \<Rightarrow> string" where
  "slice s a b = take (b - a) (drop a s)"

definition slice_from :: "string \<Rightarrow> nat \<Rightarrow> string" where
  "slice_from s a = drop a s"

subsection \<open>\<^verbatim>\<open>evaluateExpression\<close>\<close>

text \<open>
  The function calls itself on the text between the brackets, and its \<^verbatim>\<open>while\<close> loop
  runs again on the expression in which that text is replaced by its value. The loop is
  written as a call on the new expression: the call scans for brackets again and, when
  there are none, goes on to the two level passes, as the code after the loop does.
  That the function returns on every string needs some facts first: where the bracket
  search finds its pair, and that the text of a number holds no bracket.
\<close>

lemma length_takeWhile_neq:
  "c \<in> set xs \<Longrightarrow> length (takeWhile (\<lambda>x. x \<noteq> c) xs) < length xs"
  by (induction xs) auto

lemma indexOf_found:
  assumes "indexOf s c from = int k"
  shows "from \<le> k \<and> k < length s \<and> s ! k = c \<and> (\<forall>j. from \<le> j \<and> j < k \<longrightarrow> s ! j \<noteq> c)"
proof -
  let ?d = "drop from s"
  let ?t = "takeWhile (\<lambda>x. x \<noteq> c) ?d"
  from assms have mem: "c \<in> set ?d" and k: "k = from + length ?t"
    by (auto simp: indexOf_def split: if_splits)
  from mem have lt: "length ?t < length ?d"
    by (rule length_takeWhile_neq)
  have hit: "?d ! length ?t = c"
    using nth_length_takeWhile [OF lt] by simp
  have before: "\<forall>i < length ?t. ?d ! i \<noteq> c"
    by (metis (mono_tags, lifting) nth_mem set_takeWhileD takeWhile_nth)
  show ?thesis
  proof (intro conjI allI impI)
    show "from \<le> k" using k by simp
    show "k < length s" using lt k by simp
    show "s ! k = c" using hit k lt by (simp add: add.commute)
    fix j assume j: "from \<le> j \<and> j < k"
    then have "j - from < length ?t" using k by arith
    with before have "?d ! (j - from) \<noteq> c" by blast
    moreover have "?d ! (j - from) = s ! j" using j lt k by simp
    ultimately show "s ! j \<noteq> c" by simp
  qed
qed

lemma indexOf_none:
  "indexOf s c from = - 1 \<longleftrightarrow> (\<forall>j. from \<le> j \<and> j < length s \<longrightarrow> s ! j \<noteq> c)"
proof -
  have "c \<in> set (drop from s) \<longleftrightarrow> (\<exists>j. from \<le> j \<and> j < length s \<and> s ! j = c)"
  proof
    assume "c \<in> set (drop from s)"
    then obtain i where "i < length (drop from s)" "drop from s ! i = c"
      by (auto simp: in_set_conv_nth)
    then have "from \<le> from + i \<and> from + i < length s \<and> s ! (from + i) = c" by auto
    then show "\<exists>j. from \<le> j \<and> j < length s \<and> s ! j = c" by blast
  next
    assume "\<exists>j. from \<le> j \<and> j < length s \<and> s ! j = c"
    then obtain j where j: "from \<le> j" "j < length s" "s ! j = c" by blast
    then have "j - from < length (drop from s)" "drop from s ! (j - from) = c" by auto
    then show "c \<in> set (drop from s)" by (metis nth_mem)
  qed
  then show ?thesis by (auto simp: indexOf_def)
qed

lemma indexOf_cases: "indexOf s c from = - 1 \<or> (\<exists>k. indexOf s c from = int k)"
proof (cases "c \<in> set (drop from s)")
  case True
  then have "indexOf s c from = int (from + length (takeWhile (\<lambda>x. x \<noteq> c) (drop from s)))"
    by (simp add: indexOf_def)
  then show ?thesis by blast
next
  case False
  then show ?thesis by (simp add: indexOf_def)
qed

lemma find_loop_Some:
  "find_loop expr n = Some b \<Longrightarrow>
     openBracket b < n \<and> expr ! openBracket b = CHR ''('' \<and>
     indexOf expr CHR '')'' (openBracket b) = int (closedBracket b) \<and>
     (\<forall>j. openBracket b < j \<and> j < n \<and> expr ! j = CHR ''('' \<longrightarrow> indexOf expr CHR '')'' j = - 1)"
proof (induction n)
  case 0
  then show ?case by simp
next
  case (Suc n)
  show ?case
  proof (cases "expr ! n = CHR ''('' \<and> indexOf expr CHR '')'' n \<noteq> - 1")
    case True
    with Suc.prems have b: "b = \<lparr>openBracket = n, closedBracket = nat (indexOf expr CHR '')'' n)\<rparr>"
      by (simp add: Let_def)
    from True indexOf_cases [of expr "CHR '')''" n] obtain k where "indexOf expr CHR '')'' n = int k"
      by auto
    with b True show ?thesis by auto
  next
    case False
    with Suc.prems have "find_loop expr n = Some b" by (auto simp: Let_def split: if_splits)
    from Suc.IH [OF this] False show ?thesis
      by (auto simp: less_Suc_eq)
  qed
qed

lemma find_loop_None:
  "find_loop expr n = None \<longleftrightarrow>
     (\<forall>j. j < n \<and> expr ! j = CHR ''('' \<longrightarrow> indexOf expr CHR '')'' j = - 1)"
proof (induction n)
  case 0
  then show ?case by simp
next
  case (Suc n)
  then show ?case by (auto simp: Let_def less_Suc_eq)
qed


definition number_chars :: "char set" where
  "number_chars = set ''0123456789.e+-NaInfity''"

lemma digit_char_number: "d < 10 \<Longrightarrow> digit_char d \<in> set ''0123456789''"
  unfolding digit_char_def by (rule nth_mem) simp

lemma digit_chars_digits: "set (digit_chars n) \<subseteq> set ''0123456789''"
proof (induction n rule: digit_chars.induct)
  case (1 n)
  show ?case
  proof (cases "n < 10")
    case True
    then show ?thesis using digit_char_number [of n] by (subst digit_chars.simps) simp
  next
    case False
    have "n mod 10 < 10" by simp
    from digit_char_number [OF this] 1 [OF False] False show ?thesis
      by (subst digit_chars.simps) simp
  qed
qed

lemma digit_chars_number: "set (digit_chars n) \<subseteq> number_chars"
proof -
  have "set ''0123456789'' \<subseteq> number_chars" by (simp add: number_chars_def)
  with digit_chars_digits [of n] show ?thesis by blast
qed

lemma subset_app: "set a \<subseteq> S \<Longrightarrow> set b \<subseteq> S \<Longrightarrow> set (a @ b) \<subseteq> S"
  by simp

lemma subset_if: "set a \<subseteq> S \<Longrightarrow> set b \<subseteq> S \<Longrightarrow> set (if c then a else b) \<subseteq> S"
  by simp

lemma format_digits_number: "set (format_digits s n) \<subseteq> number_chars"
proof -
  let ?ds = "digit_chars s"
  let ?es = "digit_chars (nat \<bar>n - 1\<bar>)"
  have ds: "set ?ds \<subseteq> number_chars" and es: "set ?es \<subseteq> number_chars"
    by (rule digit_chars_number)+
  have t: "set (take k ?ds) \<subseteq> number_chars" for k
    using ds set_take_subset [of k ?ds] by blast
  have d: "set (drop k ?ds) \<subseteq> number_chars" for k
    using ds set_drop_subset [of k ?ds] by blast
  have z: "set (replicate k CHR ''0'') \<subseteq> number_chars" for k
    by (auto simp: number_chars_def)
  have p: "set ''.'' \<subseteq> number_chars" "set ''0.'' \<subseteq> number_chars" "set ''e'' \<subseteq> number_chars"
    "set ''-'' \<subseteq> number_chars" "set ''+'' \<subseteq> number_chars"
    by (simp_all add: number_chars_def)
  show ?thesis
    unfolding format_digits_def Let_def
    by (intro subset_if subset_app ds es t d z p)
qed

lemma number_to_string_chars: "set (number_to_string x) \<subseteq> number_chars"
proof (cases x)
  case (Fin q)
  show ?thesis
  proof (cases "q = 0")
    case True
    with Fin show ?thesis by (simp add: number_chars_def)
  next
    case False
    obtain s n where sn: "shortest_digits \<bar>q\<bar> (dec_exponent \<bar>q\<bar>) 1 17 = (s, n)"
      by (cases "shortest_digits \<bar>q\<bar> (dec_exponent \<bar>q\<bar>) 1 17") blast
    have "set ''-'' \<subseteq> number_chars" "set [] \<subseteq> number_chars" by (simp_all add: number_chars_def)
    with format_digits_number [of s n] have
      "set ((if q < 0 then ''-'' else []) @ format_digits s n) \<subseteq> number_chars"
      by (intro subset_if subset_app)
    with Fin False sn show ?thesis by (simp only: number_to_string.simps if_False Let_def prod.case)
  qed
qed (simp_all add: number_chars_def)

lemma number_to_string_no_open: "CHR ''('' \<notin> set (number_to_string x)"
  using number_to_string_chars [of x] by (auto simp: number_chars_def)

lemma solve_result:
  "solve v ops cb = Inr r \<Longrightarrow> r = Str (to_string v) \<or> (\<exists>n. r = Num n)"
  by (auto simp: solve_def Let_def split: if_splits sum.splits)


lemma findInnermostBrackets_Some:
  assumes "findInnermostBrackets expr = Some b"
  shows "openBracket b < closedBracket b" "closedBracket b < length expr"
    "expr ! openBracket b = CHR ''(''" "expr ! closedBracket b = CHR '')''"
proof -
  from find_loop_Some [OF assms [unfolded findInnermostBrackets_def]]
  have ob: "expr ! openBracket b = CHR ''(''"
    and ix: "indexOf expr CHR '')'' (openBracket b) = int (closedBracket b)" by simp_all
  from indexOf_found [OF ix]
  have le: "openBracket b \<le> closedBracket b" and lt: "closedBracket b < length expr"
    and cb: "expr ! closedBracket b = CHR '')''" by simp_all
  from ob cb have "openBracket b \<noteq> closedBracket b" by auto
  with le show "openBracket b < closedBracket b" by simp
  show "closedBracket b < length expr" by (rule lt)
  show "expr ! openBracket b = CHR ''(''" by (rule ob)
  show "expr ! closedBracket b = CHR '')''" by (rule cb)
qed

lemma brackets_split:
  assumes "findInnermostBrackets expr = Some b"
  shows "expr = slice expr 0 (openBracket b) @ CHR ''('' #
           slice expr (openBracket b + 1) (closedBracket b) @ CHR '')'' #
           slice_from expr (closedBracket b + 1)"
proof -
  note f = findInnermostBrackets_Some [OF assms]
  let ?o = "openBracket b" and ?c = "closedBracket b"
  let ?r = "drop (Suc ?o) expr"
  have 1: "expr = take ?o expr @ expr ! ?o # ?r"
    using f by (intro id_take_nth_drop) simp
  have lt: "?c - Suc ?o < length ?r" using f by simp
  have 2: "?r = take (?c - Suc ?o) ?r @ ?r ! (?c - Suc ?o) # drop (Suc (?c - Suc ?o)) ?r"
    using lt by (rule id_take_nth_drop)
  have 3: "?r ! (?c - Suc ?o) = expr ! ?c" using f by simp
  have 4: "drop (Suc (?c - Suc ?o)) ?r = drop (Suc ?c) expr" using f by simp
  have "expr = take ?o expr @ expr ! ?o # take (?c - Suc ?o) ?r @ expr ! ?c # drop (Suc ?c) expr"
    using 1 2 3 4 by metis
  then show ?thesis using f by (simp add: slice_def slice_from_def)
qed

definition count_open :: "string \<Rightarrow> nat" where
  "count_open s = length (filter (\<lambda>c. c = CHR ''('') s)"

lemma count_open_append [simp]: "count_open (a @ b) = count_open a + count_open b"
  by (simp add: count_open_def)

lemma count_open_number [simp]: "count_open (number_to_string n) = 0"
  using number_to_string_no_open [of n] by (auto simp: count_open_def filter_empty_conv)

lemma count_open_split:
  assumes "findInnermostBrackets expr = Some b"
  shows "count_open expr = count_open (slice expr 0 (openBracket b)) + 1 +
           count_open (slice expr (openBracket b + 1) (closedBracket b)) +
           count_open (slice_from expr (closedBracket b + 1))"
proof -
  have "count_open expr = count_open (slice expr 0 (openBracket b) @ CHR ''('' #
           slice expr (openBracket b + 1) (closedBracket b) @ CHR '')'' #
           slice_from expr (closedBracket b + 1))"
    using brackets_split [OF assms] by simp
  then show ?thesis by (simp add: count_open_def)
qed

text \<open>What the two level passes return for an expression without a bracket pair.\<close>

lemma levels_result:
  assumes "computeMD (Str x) = Inr m" "computeAS m = Inr r"
  shows "to_string r = x \<or> (\<exists>n. to_string r = number_to_string n)"
proof -
  from solve_result [OF assms(1) [unfolded computeMD_def]]
  have m: "m = Str x \<or> (\<exists>n. m = Num n)" by simp
  from solve_result [OF assms(2) [unfolded computeAS_def]]
  have "r = Str (to_string m) \<or> (\<exists>n. r = Num n)" .
  with m show ?thesis by auto
qed

lemma levels_count_open:
  assumes "computeMD (Str x) = Inr m" "computeAS m = Inr r"
  shows "count_open (to_string r) \<le> count_open x"
  using levels_result [OF assms] by auto

text \<open>
  Termination: every pass of the loop removes one opening bracket, since the value that
  replaces the bracketed text is the text of a number or that text itself.
\<close>

function evaluateExpression :: "string \<Rightarrow> error + jsval" where
  "evaluateExpression expr =
     (case findInnermostBrackets expr of
        Some brackets \<Rightarrow>
          (let innerExpr = slice expr (openBracket brackets + 1) (closedBracket brackets);
               leftOuter = slice expr 0 (openBracket brackets);
               rightOuter = slice_from expr (closedBracket brackets + 1)
           in case evaluateExpression innerExpr of
                Inl e \<Rightarrow> Inl e
              | Inr v \<Rightarrow> evaluateExpression (leftOuter @ to_string v @ rightOuter))
      | None \<Rightarrow>
          (case computeMD (Str expr) of
             Inl e \<Rightarrow> Inl e
           | Inr expr' \<Rightarrow> computeAS expr'))"
  by pat_completeness auto

lemma evaluateExpression_inner_count:
  assumes dom: "evaluateExpression_dom x" and res: "evaluateExpression x = Inr v"
  shows "count_open (to_string v) \<le> count_open x"
  using dom res
proof (induction x arbitrary: v rule: evaluateExpression.pinduct)
  case (1 expr)
  show ?case
  proof (cases "findInnermostBrackets expr")
    case None
    with 1 show ?thesis
      by (auto simp: evaluateExpression.psimps split: sum.splits dest: levels_count_open)
  next
    case (Some b)
    let ?inner = "slice expr (openBracket b + 1) (closedBracket b)"
    let ?left = "slice expr 0 (openBracket b)"
    let ?right = "slice_from expr (closedBracket b + 1)"
    from 1(1) 1(4) Some obtain w where w: "evaluateExpression ?inner = Inr w"
      and v: "evaluateExpression (?left @ to_string w @ ?right) = Inr v"
      by (auto simp: evaluateExpression.psimps Let_def split: sum.splits)
    from 1(2) [OF Some refl refl refl w] have a: "count_open (to_string w) \<le> count_open ?inner" .
    from 1(3) [OF Some refl refl refl w v]
    have "count_open (to_string v) \<le> count_open (?left @ to_string w @ ?right)" .
    with a count_open_split [OF Some] show ?thesis by simp
  qed
qed

termination evaluateExpression
proof (relation "measure count_open")
  show "wf (measure count_open)" by simp
next
  fix expr b innerExpr leftOuter rightOuter
  assume "findInnermostBrackets expr = Some b"
    "innerExpr = slice expr (openBracket b + 1) (closedBracket b)"
  then show "(innerExpr, expr) \<in> measure count_open"
    using count_open_split [of expr b] by simp
next
  fix expr b innerExpr leftOuter rightOuter v
  assume b: "findInnermostBrackets expr = Some b"
    and i: "innerExpr = slice expr (openBracket b + 1) (closedBracket b)"
    and l: "leftOuter = slice expr 0 (openBracket b)"
    and r: "rightOuter = slice_from expr (closedBracket b + 1)"
    and v: "evaluateExpression innerExpr = Inr v"
    and dom: "evaluateExpression_dom innerExpr"
  from evaluateExpression_inner_count [OF dom v]
  show "(leftOuter @ to_string v @ rightOuter, expr) \<in> measure count_open"
    using count_open_split [OF b] i l r by simp
qed

declare evaluateExpression.simps [simp del]

text \<open>The value that replaces a bracketed text holds no more opening brackets than the text.\<close>

lemma evaluateExpression_count:
  "evaluateExpression x = Inr v \<Longrightarrow> count_open (to_string v) \<le> count_open x"
proof (induction x arbitrary: v rule: evaluateExpression.induct)
  case (1 expr)
  show ?case
  proof (cases "findInnermostBrackets expr")
    case None
    with 1(3) show ?thesis
      by (auto simp: evaluateExpression.simps [of expr] split: sum.splits dest: levels_count_open)
  next
    case (Some b)
    let ?inner = "slice expr (openBracket b + 1) (closedBracket b)"
    let ?left = "slice expr 0 (openBracket b)"
    let ?right = "slice_from expr (closedBracket b + 1)"
    from 1(3) Some obtain w where w: "evaluateExpression ?inner = Inr w"
      and v: "evaluateExpression (?left @ to_string w @ ?right) = Inr v"
      by (auto simp: evaluateExpression.simps [of expr] Let_def split: sum.splits)
    from 1(1) [OF Some refl refl refl w] have a: "count_open (to_string w) \<le> count_open ?inner" .
    from 1(2) [OF Some refl refl refl w v]
    have "count_open (to_string v) \<le> count_open (?left @ to_string w @ ?right)" .
    with a count_open_split [OF Some] show ?thesis by simp
  qed
qed

text \<open>
  The \<^verbatim>\<open>while\<close> loop of \<^verbatim>\<open>evaluateExpression\<close> on its own: the expression it leaves for
  the two level passes, or the exception that a bracketed text raised.
\<close>

function bracket_loop :: "string \<Rightarrow> error + string" where
  "bracket_loop expr =
     (case findInnermostBrackets expr of
        Some brackets \<Rightarrow>
          (let innerExpr = slice expr (openBracket brackets + 1) (closedBracket brackets);
               leftOuter = slice expr 0 (openBracket brackets);
               rightOuter = slice_from expr (closedBracket brackets + 1)
           in case evaluateExpression innerExpr of
                Inl e \<Rightarrow> Inl e
              | Inr v \<Rightarrow> bracket_loop (leftOuter @ to_string v @ rightOuter))
      | None \<Rightarrow> Inr expr)"
  by pat_completeness auto
termination
proof (relation "measure count_open")
  show "wf (measure count_open)" by simp
next
  fix expr b innerExpr leftOuter rightOuter v
  assume b: "findInnermostBrackets expr = Some b"
    and i: "innerExpr = slice expr (openBracket b + 1) (closedBracket b)"
    and l: "leftOuter = slice expr 0 (openBracket b)"
    and r: "rightOuter = slice_from expr (closedBracket b + 1)"
    and v: "evaluateExpression innerExpr = Inr v"
  from evaluateExpression_count [OF v]
  show "(leftOuter @ to_string v @ rightOuter, expr) \<in> measure count_open"
    using count_open_split [OF b] i l r by simp
qed

declare bracket_loop.simps [simp del]

subsection \<open>\<^verbatim>\<open>compute\<close>\<close>

text \<open>
  \<^verbatim>\<open>compute\<close> catches every exception, writes a line to the console and returns the
  text of the exception. The console is the only thing outside the calculator that the
  code touches; it is passed in and returned.
\<close>

type_synonym console = "string list"

definition compute :: "string \<Rightarrow> console \<Rightarrow> jsval \<times> console" where
  "compute expression con =
     (case evaluateExpression expression of
        Inr v \<Rightarrow> (v, con)
      | Inl error \<Rightarrow>
          (Str (error_to_string error),
           con @ [''Error whilst calculating result: '' @ error_to_string error]))"



subsection \<open>The fold of the specification\<close>

text \<open>
  The specification describes the second loop of \<^verbatim>\<open>solve\<close> as a fold: starting with the
  first number, apply \<open>combine(accumulator, next, operatorBetween)\<close> left to right across
  the operator list. This definition follows those words; it is compared with the loop
  of the code below.
\<close>

fun spec_left_fold :: "callback \<Rightarrow> jsnum \<Rightarrow> (char \<times> jsnum) list \<Rightarrow> error + jsnum" where
  "spec_left_fold combine accumulator [] = Inr accumulator"
| "spec_left_fold combine accumulator ((operatorBetween, next) # rest) =
     (case combine accumulator next operatorBetween of
        Inl e \<Rightarrow> Inl e
      | Inr r \<Rightarrow> spec_left_fold combine r rest)"

section \<open>The rounding of numbers\<close>

text \<open>
  Two facts that tie the rounding to its description: \<open>floor_log2\<close> is the binary exponent
  of its argument, and the test for an infinity in \<open>to_double\<close> is the comparison with
  \<open>2^1024\<close>.
\<close>

lemma bitlen_bounds: "0 < n \<Longrightarrow> 2 ^ (bitlen n - 1) \<le> n \<and> n < 2 ^ bitlen n"
proof (induction n rule: bitlen.induct)
  case (1 n)
  show ?case
  proof (cases "n div 2 = 0")
    case True
    with 1(2) have "n = 1" by (simp add: div_eq_0_iff)
    then show ?thesis by (simp add: bitlen.simps [of "Suc 0"] bitlen.simps [of 0])
  next
    case False
    then have pos: "0 < n div 2" by simp
    from 1(2) have n0: "n \<noteq> 0" by simp
    from 1(1) [OF n0 pos] have lo: "2 ^ (bitlen (n div 2) - 1) \<le> n div 2"
      and hi: "n div 2 < 2 ^ bitlen (n div 2)" by simp_all
    have b: "bitlen n = Suc (bitlen (n div 2))" using n0 by (simp add: bitlen.simps [of n])
    have bp: "0 < bitlen (n div 2)" using pos by (simp add: bitlen.simps [of "n div 2"])
    then have e: "(2::nat) ^ (bitlen n - 1) = 2 * 2 ^ (bitlen (n div 2) - 1)"
      using b by (cases "bitlen (n div 2)") simp_all
    from lo have "2 * 2 ^ (bitlen (n div 2) - 1) \<le> 2 * (n div 2)" by simp
    also have "\<dots> \<le> n" by simp
    finally have 1: "2 ^ (bitlen n - 1) \<le> n" using e by simp
    from hi have "n div 2 + 1 \<le> 2 ^ bitlen (n div 2)" by simp
    then have "2 * (n div 2 + 1) \<le> 2 * 2 ^ bitlen (n div 2)" by simp
    moreover have "n < 2 * (n div 2 + 1)" by presburger
    ultimately have "n < 2 ^ bitlen n" using b by simp
    with 1 show ?thesis by simp
  qed
qed

lemma pow2_add1: "pow2 (e + 1) = 2 * pow2 e"
proof (cases "0 \<le> e")
  case True
  then show ?thesis by (simp add: pow2_def nat_add_distrib)
next
  case False
  then have "nat (- e) = Suc (nat (- (e + 1)))" by simp
  with False show ?thesis by (auto simp: pow2_def)
qed

lemma pow2_int: "pow2 (int k) = 2 ^ k"
  by (simp add: pow2_def)

lemma pow2_pos: "0 < pow2 e"
  by (simp add: pow2_def)

lemma pow2_mono: "a \<le> b \<Longrightarrow> pow2 a \<le> pow2 b"
proof -
  assume "a \<le> b"
  then obtain k where "b = a + int k" by (metis nonneg_int_cases zle_iff_zadd)
  moreover have "pow2 a \<le> pow2 (a + int k)"
  proof (induction k)
    case 0
    then show ?case by simp
  next
    case (Suc k)
    have "pow2 (a + int (Suc k)) = 2 * pow2 (a + int k)"
      using pow2_add1 [of "a + int k"] by (simp add: ac_simps)
    with Suc pow2_pos [of "a + int k"] show ?case by simp
  qed
  ultimately show ?thesis by simp
qed

lemma floor_log2_bounds:
  assumes "0 < a"
  shows "pow2 (floor_log2 a) \<le> a \<and> a < pow2 (floor_log2 a + 1)"
proof (cases "1 \<le> a")
  case True
  define n where "n = nat \<lfloor>a\<rfloor>"
  from True have n: "0 < n" "of_nat n \<le> a" "a < of_nat n + 1"
    by (simp_all add: n_def) linarith+
  from bitlen_bounds [OF n(1)] have lo: "2 ^ (bitlen n - 1) \<le> n" and hi: "n < 2 ^ bitlen n"
    by simp_all
  have bp: "0 < bitlen n" using n(1) by (simp add: bitlen.simps [of n])
  then have e: "floor_log2 a = int (bitlen n - 1)"
    using True by (simp add: floor_log2_def n_def)
  from bp have e': "floor_log2 a + 1 = int (bitlen n)" by (simp add: e)
  from lo have "(2::rat) ^ (bitlen n - 1) \<le> of_nat n"
    by (metis of_nat_le_iff of_nat_numeral of_nat_power)
  from this n(2) have "(2::rat) ^ (bitlen n - 1) \<le> a" by (rule order_trans)
  then have 1: "pow2 (floor_log2 a) \<le> a" by (simp only: e pow2_int)
  from hi have "n + 1 \<le> 2 ^ bitlen n" by simp
  then have "(of_nat (n + 1) :: rat) \<le> 2 ^ bitlen n"
    by (metis of_nat_le_iff of_nat_numeral of_nat_power)
  moreover from n(3) have "a < of_nat (n + 1)" by simp
  ultimately have "a < 2 ^ bitlen n" by (rule less_le_trans [rotated])
  then have "a < pow2 (floor_log2 a + 1)" by (simp only: e' pow2_int)
  with 1 show ?thesis by simp
next
  case False
  define b where "b = 1 / a"
  define m where "m = nat (\<lceil>b\<rceil> - 1)"
  from False assms have b1: "1 < b" by (simp add: b_def)
  then have c2: "2 \<le> \<lceil>b\<rceil>" by linarith
  then have m: "0 < m" "of_nat m < b" "b \<le> of_nat m + 1"
    by (simp_all add: m_def) linarith+
  from bitlen_bounds [OF m(1)] have lo: "2 ^ (bitlen m - 1) \<le> m" and hi: "m < 2 ^ bitlen m"
    by simp_all
  have bp: "0 < bitlen m" using m(1) by (simp add: bitlen.simps [of m])
  have e: "floor_log2 a = - int (bitlen m)" using False by (simp add: floor_log2_def m_def b_def)
  from hi have "m + 1 \<le> 2 ^ bitlen m" by simp
  then have "(of_nat (m + 1) :: rat) \<le> 2 ^ bitlen m"
    by (metis of_nat_le_iff of_nat_numeral of_nat_power)
  moreover from m(3) have "b \<le> of_nat (m + 1)" by simp
  ultimately have "b \<le> 2 ^ bitlen m" by (rule order_trans [rotated])
  then have "1 / 2 ^ bitlen m \<le> a"
    using assms b1 by (simp add: b_def field_simps)
  then have 1: "pow2 (floor_log2 a) \<le> a" using bp by (simp add: e pow2_def)
  from lo have "(2::rat) ^ (bitlen m - 1) \<le> of_nat m"
    by (metis of_nat_le_iff of_nat_numeral of_nat_power)
  from this m(2) have "2 ^ (bitlen m - 1) < b" by (rule le_less_trans)
  then have lt: "a < 1 / 2 ^ (bitlen m - 1)"
    using assms by (simp add: b_def field_simps)
  have "pow2 (floor_log2 a + 1) = 1 / 2 ^ (bitlen m - 1)"
  proof (cases "bitlen m = 1")
    case True
    then show ?thesis by (simp add: e pow2_def)
  next
    case False
    with bp have "nat (int (bitlen m) - 1) = bitlen m - 1" "\<not> 0 \<le> - int (bitlen m) + 1" by simp_all
    then show ?thesis by (simp add: e pow2_def)
  qed
  with lt 1 show ?thesis by simp
qed

lemma overflow_test:
  assumes "0 < r"
  shows "1024 \<le> floor_log2 r \<longleftrightarrow> pow2 1024 \<le> r"
proof
  assume "1024 \<le> floor_log2 r"
  then have "pow2 1024 \<le> pow2 (floor_log2 r)" by (rule pow2_mono)
  with floor_log2_bounds [OF assms] show "pow2 1024 \<le> r" by simp
next
  assume a: "pow2 1024 \<le> r"
  show "1024 \<le> floor_log2 r"
  proof (rule ccontr)
    assume "\<not> 1024 \<le> floor_log2 r"
    then have "floor_log2 r + 1 \<le> 1024" by simp
    then have "pow2 (floor_log2 r + 1) \<le> pow2 1024" by (rule pow2_mono)
    with floor_log2_bounds [OF assms] a show False by simp
  qed
qed

section \<open>Evaluation of concrete expressions\<close>

text \<open>
  Each expression is run through the model by the simplifier with the defining equations.
  The console is any console; an expression that raises nothing leaves it as it was.
\<close>

lemma compute_2_plus_2: "compute ''2+2'' con = (Num (Fin 4), con)"
  by code_simp

lemma compute_2_minus_1: "compute ''2-1'' con = (Num (Fin 1), con)"
  by code_simp

lemma compute_3_times_4: "compute ''3*4'' con = (Num (Fin 12), con)"
  by code_simp

lemma compute_10_div_2: "compute ''10/2'' con = (Num (Fin 5), con)"
  by code_simp

lemma compute_bracket_right: "compute ''2+(2*5)'' con = (Num (Fin 12), con)"
  by code_simp

lemma compute_bracket_sum: "compute ''2*(2+5)'' con = (Num (Fin 14), con)"
  by code_simp

lemma compute_two_groups: "compute ''(2+1)*(4-3)'' con = (Num (Fin 3), con)"
  by code_simp

lemma compute_nested_zero: "compute ''12*(12-(6+6))'' con = (Num (Fin 0), con)"
  by code_simp

lemma compute_nested_single: "compute ''12*(12-(6))'' con = (Num (Fin 72), con)"
  by code_simp

lemma compute_sub_chain: "compute ''10-2-3'' con = (Num (Fin 5), con)"
  by code_simp

lemma compute_div_chain: "compute ''20/2/5'' con = (Num (Fin 2), con)"
  by code_simp

lemma compute_add_then_mul: "compute ''2+2*5'' con = (Num (Fin 10), con)"
  by code_simp

lemma compute_mul_then_add: "compute ''2*2+5'' con = (Num (Fin 7), con)"
  by code_simp


lemma compute_ampersand: "compute ''2&3'' con = (Str ''2&3'', con)"
  by code_simp

section \<open>Precedence of the two levels\<close>

text \<open>
  Claim C1. A flat expression that mixes the two levels should be evaluated with
  multiplication and division before addition and subtraction, so that \<^verbatim>\<open>2+2*5\<close> is 12
  and \<^verbatim>\<open>2*2+5\<close> is 9. The code does not do this. On \<^verbatim>\<open>2+2*5\<close> the multiplication
  pass splits at \<^verbatim>\<open>*\<close> only, parses its first piece \<^verbatim>\<open>2+2\<close> as 2 and returns 10, which
  the addition pass leaves as it is. On \<^verbatim>\<open>2*2+5\<close> the multiplication pass finds the
  last piece \<^verbatim>\<open>2+5\<close> not numeric and returns the expression untouched; the addition
  pass then parses its first piece \<^verbatim>\<open>2*2\<close> as 2 and returns 7.
\<close>

theorem compute_mixed_levels:
  "compute ''2+2*5'' con = (Num (Fin 10), con) \<and> compute ''2*2+5'' con = (Num (Fin 7), con)"
  by (simp only: compute_add_then_mul compute_mul_then_add)

section \<open>The scenarios of the specification\<close>

text \<open>
  Claim C2. \<^verbatim>\<open>compute\<close> returns the exact value on each scenario: \<^verbatim>\<open>2+2\<close> is 4,
  \<^verbatim>\<open>2-1\<close> is 1, \<^verbatim>\<open>3*4\<close> is 12, \<^verbatim>\<open>10/2\<close> is 5, \<^verbatim>\<open>2+(2*5)\<close> is 12, \<^verbatim>\<open>2*(2+5)\<close> is 14
  and \<^verbatim>\<open>(2+1)*(4-3)\<close> is 3.
\<close>

theorem compute_scenarios:
  "compute ''2+2'' con = (Num (Fin 4), con) \<and>
   compute ''2-1'' con = (Num (Fin 1), con) \<and>
   compute ''3*4'' con = (Num (Fin 12), con) \<and>
   compute ''10/2'' con = (Num (Fin 5), con) \<and>
   compute ''2+(2*5)'' con = (Num (Fin 12), con) \<and>
   compute ''2*(2+5)'' con = (Num (Fin 14), con) \<and>
   compute ''(2+1)*(4-3)'' con = (Num (Fin 3), con)"
  by (simp only: compute_2_plus_2 compute_2_minus_1 compute_3_times_4 compute_10_div_2
      compute_bracket_right compute_bracket_sum compute_two_groups)

section \<open>The bracket search\<close>

text \<open>
  Claim C7. \<^verbatim>\<open>__findInnermostBrackets\<close> scans from the last character to the first and
  returns, for the first opening bracket it meets that has a closing bracket after it,
  that position and the position of the first closing bracket after it. So the pair it
  returns is the last opening bracket with a closing bracket behind it, together with the
  nearest such closing bracket; it holds \<open>openBracket < closedBracket\<close>, an opening bracket
  at the first position and a closing one at the second. It returns nothing exactly when
  no opening bracket has a closing bracket after it.
\<close>

theorem findInnermostBrackets_pair:
  "(findInnermostBrackets expr = Some b \<longleftrightarrow>
      openBracket b < closedBracket b \<and> closedBracket b < length expr \<and>
      expr ! openBracket b = CHR ''('' \<and> expr ! closedBracket b = CHR '')'' \<and>
      (\<forall>k. openBracket b < k \<and> k < closedBracket b \<longrightarrow> expr ! k \<noteq> CHR '')'') \<and>
      (\<forall>j k. openBracket b < j \<and> j < k \<and> k < length expr \<and> expr ! j = CHR ''(''
             \<longrightarrow> expr ! k \<noteq> CHR '')'')) \<and>
   (findInnermostBrackets expr = None \<longleftrightarrow>
      (\<forall>j k. j < k \<and> k < length expr \<and> expr ! j = CHR ''('' \<longrightarrow> expr ! k \<noteq> CHR '')''))"
proof -
  let ?open = "\<lambda>j. expr ! j = CHR ''(''"
  let ?closed = "\<lambda>k. expr ! k = CHR '')''"
  have differ: "\<not> (?open j \<and> ?closed j)" for j by auto
  have none_after: "indexOf expr CHR '')'' j = - 1 \<longleftrightarrow> (\<forall>k. j < k \<and> k < length expr \<longrightarrow> \<not> ?closed k)"
    if "?open j" for j
  proof -
    have "(\<forall>k. j \<le> k \<and> k < length expr \<longrightarrow> \<not> ?closed k) \<longleftrightarrow>
          (\<forall>k. j < k \<and> k < length expr \<longrightarrow> \<not> ?closed k)"
      using that differ by (metis le_neq_implies_less less_imp_le)
    then show ?thesis by (simp add: indexOf_none)
  qed
  have None_iff: "findInnermostBrackets expr = None \<longleftrightarrow>
      (\<forall>j k. j < k \<and> k < length expr \<and> ?open j \<longrightarrow> \<not> ?closed k)"
  proof
    assume n: "findInnermostBrackets expr = None"
    show "\<forall>j k. j < k \<and> k < length expr \<and> ?open j \<longrightarrow> \<not> ?closed k"
    proof (intro allI impI)
      fix j k assume a: "j < k \<and> k < length expr \<and> ?open j"
      then have "j < length expr" by simp
      with n a have "indexOf expr CHR '')'' j = - 1"
        by (simp add: findInnermostBrackets_def find_loop_None)
      with a none_after [of j] show "\<not> ?closed k" by blast
    qed
  next
    assume r: "\<forall>j k. j < k \<and> k < length expr \<and> ?open j \<longrightarrow> \<not> ?closed k"
    have "indexOf expr CHR '')'' j = - 1" if "?open j" for j
      using that r none_after [of j] by blast
    then show "findInnermostBrackets expr = None"
      by (simp add: findInnermostBrackets_def find_loop_None)
  qed
  have Some_props:
    "openBracket c < closedBracket c \<and> closedBracket c < length expr \<and>
     ?open (openBracket c) \<and> ?closed (closedBracket c) \<and>
     (\<forall>k. openBracket c < k \<and> k < closedBracket c \<longrightarrow> \<not> ?closed k) \<and>
     (\<forall>j k. openBracket c < j \<and> j < k \<and> k < length expr \<and> ?open j \<longrightarrow> \<not> ?closed k)"
    if s: "findInnermostBrackets expr = Some c" for c
  proof -
    note f = findInnermostBrackets_Some [OF s]
    from find_loop_Some [OF s [unfolded findInnermostBrackets_def]]
    have ix: "indexOf expr CHR '')'' (openBracket c) = int (closedBracket c)"
      and later: "\<forall>j. openBracket c < j \<and> j < length expr \<and> ?open j \<longrightarrow> indexOf expr CHR '')'' j = - 1"
      by simp_all
    from indexOf_found [OF ix]
    have first: "\<forall>k. openBracket c < k \<and> k < closedBracket c \<longrightarrow> \<not> ?closed k" by simp
    have last: "\<forall>j k. openBracket c < j \<and> j < k \<and> k < length expr \<and> ?open j \<longrightarrow> \<not> ?closed k"
    proof (intro allI impI)
      fix j k assume a: "openBracket c < j \<and> j < k \<and> k < length expr \<and> ?open j"
      then have "j < length expr" by simp
      with later a have "indexOf expr CHR '')'' j = - 1" by blast
      with a none_after [of j] show "\<not> ?closed k" by blast
    qed
    from f first last show ?thesis by blast
  qed
  have Some_iff: "findInnermostBrackets expr = Some b \<longleftrightarrow>
      openBracket b < closedBracket b \<and> closedBracket b < length expr \<and>
      ?open (openBracket b) \<and> ?closed (closedBracket b) \<and>
      (\<forall>k. openBracket b < k \<and> k < closedBracket b \<longrightarrow> \<not> ?closed k) \<and>
      (\<forall>j k. openBracket b < j \<and> j < k \<and> k < length expr \<and> ?open j \<longrightarrow> \<not> ?closed k)"
    (is "?L \<longleftrightarrow> ?R")
  proof
    assume ?L then show ?R by (rule Some_props)
  next
    assume r: ?R
    then have "\<not> (\<forall>j k. j < k \<and> k < length expr \<and> ?open j \<longrightarrow> \<not> ?closed k)" by blast
    with None_iff obtain c where c: "findInnermostBrackets expr = Some c" by auto
    note p = Some_props [OF c]
    have o: "openBracket c = openBracket b"
    proof (rule ccontr)
      assume "openBracket c \<noteq> openBracket b"
      then consider "openBracket c < openBracket b" | "openBracket b < openBracket c" by arith
      then show False
      proof cases
        case 1
        with p r show False by blast
      next
        case 2
        with p r show False by blast
      qed
    qed
    have "closedBracket c = closedBracket b"
    proof (rule ccontr)
      assume "closedBracket c \<noteq> closedBracket b"
      then consider "closedBracket c < closedBracket b" | "closedBracket b < closedBracket c" by arith
      then show False
      proof cases
        case 1
        with p r o show False by metis
      next
        case 2
        with p r o show False by metis
      qed
    qed
    with o have "c = b" by simp
    with c show ?L by simp
  qed
  from Some_iff None_iff show ?thesis by blast
qed

theorem findInnermostBrackets_pair_witness:
  "findInnermostBrackets ''(2+1)*(4-3)'' = Some \<lparr>openBracket = 6, closedBracket = 10\<rparr> \<and>
   openBracket \<lparr>openBracket = 6, closedBracket = 10\<rparr>
     < closedBracket \<lparr>openBracket = 6, closedBracket = 10\<rparr> \<and>
   closedBracket \<lparr>openBracket = 6, closedBracket = 10\<rparr> < length ''(2+1)*(4-3)'' \<and>
   ''(2+1)*(4-3)'' ! openBracket \<lparr>openBracket = 6, closedBracket = 10\<rparr> = CHR ''('' \<and>
   ''(2+1)*(4-3)'' ! closedBracket \<lparr>openBracket = 6, closedBracket = 10\<rparr> = CHR '')'' \<and>
   findInnermostBrackets '')('' = None"
proof -
  have s: "findInnermostBrackets ''(2+1)*(4-3)'' = Some \<lparr>openBracket = 6, closedBracket = 10\<rparr>"
    by code_simp
  have n: "findInnermostBrackets '')('' = None"
    by code_simp
  from s n findInnermostBrackets_pair [of "''(2+1)*(4-3)''" "\<lparr>openBracket = 6, closedBracket = 10\<rparr>"]
  show ?thesis by blast
qed

section \<open>The scanning loop and the fold of \<^verbatim>\<open>solve\<close>\<close>

lemma scan_loop_piece:
  "set p \<inter> set ops = {} \<Longrightarrow>
   scan_loop ops (p @ s) st = scan_loop ops s (st\<lparr>numString := numString st @ p\<rparr>)"
  by (induction p arbitrary: st) auto

lemma scan_loop_numString:
  "numString (scan_loop ops s st) =
     (if set s \<inter> set ops = {} then numString st @ s
      else rev (takeWhile (\<lambda>c. c \<notin> set ops) (rev s)))"
proof (induction s arbitrary: st)
  case Nil
  then show ?case by simp
next
  case (Cons c s)
  show ?case
  proof (cases "set s \<inter> set ops = {}")
    case True
    then have all: "\<forall>x \<in> set (rev s). x \<notin> set ops" by auto
    show ?thesis
    proof (cases "c \<in> set ops")
      case True
      have "takeWhile (\<lambda>c. c \<notin> set ops) (rev s @ [c]) = rev s @ takeWhile (\<lambda>c. c \<notin> set ops) [c]"
        using all by (intro takeWhile_append2) auto
      with True have tw: "rev (takeWhile (\<lambda>c. c \<notin> set ops) (rev s @ [c])) = s" by simp
      from Cons [of "st\<lparr>detectedNums := detectedNums st @ [parseFloat (numString st)],
                operations := operations st @ [c], numString := []\<rparr>"] \<open>set s \<inter> set ops = {}\<close>
      have "numString (scan_loop ops (c # s) st) = s" using True by simp
      with tw True show ?thesis by simp
    next
      case False
      with Cons [of "st\<lparr>numString := numString st @ [c]\<rparr>"] \<open>set s \<inter> set ops = {}\<close>
      show ?thesis by simp
    qed
  next
    case False
    then obtain x where "x \<in> set (rev s)" "\<not> x \<notin> set ops" by auto
    then have "takeWhile (\<lambda>c. c \<notin> set ops) (rev s @ [c]) = takeWhile (\<lambda>c. c \<notin> set ops) (rev s)"
      by (intro takeWhile_append1) auto
    with False Cons show ?thesis by auto
  qed
qed

lemma scan_loop_trailing:
  "numString (scan_loop ops s scan_init) = rev (takeWhile (\<lambda>c. c \<notin> set ops) (rev s))"
proof (cases "set s \<inter> set ops = {}")
  case True
  then have eq: "takeWhile (\<lambda>c. c \<notin> set ops) (rev s) = rev s"
    by (intro takeWhile_eq_all_conv [THEN iffD2]) auto
  show ?thesis using True by (simp add: scan_loop_numString eq)
next
  case False
  then show ?thesis by (simp add: scan_loop_numString)
qed

text \<open>The scan of an expression given as its pieces and the operators between them.\<close>

lemma scan_loop_pieces:
  assumes "set p0 \<inter> set ops = {}"
    and "\<forall>(c, p) \<in> set rest. c \<in> set ops \<and> set p \<inter> set ops = {}"
  shows "scan_loop ops (p0 @ concat (map (\<lambda>(c, p). c # p) rest)) st =
           \<lparr>detectedNums = detectedNums st @
              map parseFloat (butlast ((numString st @ p0) # map snd rest)),
            operations = operations st @ map fst rest,
            numString = last ((numString st @ p0) # map snd rest)\<rparr>"
  using assms
proof (induction rest arbitrary: p0 st)
  case Nil
  then show ?case using scan_loop_piece [of p0 ops "[]" st] by simp
next
  case (Cons cp rest)
  obtain c p where cp: "cp = (c, p)" by (cases cp)
  from Cons.prems cp have c: "c \<in> set ops" and p: "set p \<inter> set ops = {}"
    and r: "\<forall>(c, p) \<in> set rest. c \<in> set ops \<and> set p \<inter> set ops = {}" by auto
  let ?tail = "concat (map (\<lambda>(c, p). c # p) rest)"
  let ?st1 = "st\<lparr>numString := numString st @ p0\<rparr>"
  let ?st2 = "?st1\<lparr>detectedNums := detectedNums ?st1 @ [parseFloat (numString ?st1)],
                    operations := operations ?st1 @ [c], numString := []\<rparr>"
  have "scan_loop ops (p0 @ concat (map (\<lambda>(c, p). c # p) (cp # rest))) st =
        scan_loop ops (c # p @ ?tail) ?st1"
    using scan_loop_piece [OF Cons.prems(1), of "c # p @ ?tail" st] cp by simp
  also have "\<dots> = scan_loop ops (p @ ?tail) ?st2"
    using c by simp
  also have "\<dots> = \<lparr>detectedNums = detectedNums ?st2 @
              map parseFloat (butlast ((numString ?st2 @ p) # map snd rest)),
            operations = operations ?st2 @ map fst rest,
            numString = last ((numString ?st2 @ p) # map snd rest)\<rparr>"
    by (rule Cons.IH [OF p r])
  finally show ?case using cp by simp
qed

text \<open>The loop of the code computes the fold of the specification.\<close>

lemma fold_loop_spec:
  "1 \<le> i \<Longrightarrow> length nums = length ops + 1 \<Longrightarrow>
   fold_loop cb nums ops i r = spec_left_fold cb r (zip (drop (i - 1) ops) (drop i nums))"
proof (induction cb nums ops i r rule: fold_loop.induct)
  case (1 cb nums ops i r)
  show ?case
  proof (cases "i < length nums")
    case True
    then have n: "drop i nums = nums ! i # drop (i + 1) nums"
      by (simp add: Cons_nth_drop_Suc)
    from True 1(2,3) have "i - 1 < length ops" "Suc (i - 1) = i" by simp_all
    with Cons_nth_drop_Suc [of "i - 1" ops]
    have o: "drop (i - 1) ops = ops ! (i - 1) # drop i ops" by simp
    show ?thesis
    proof (cases "cb r (nums ! i) (ops ! (i - 1))")
      case (Inl e)
      with True n o show ?thesis by (simp add: fold_loop.simps [of cb nums ops i])
    next
      case (Inr r')
      from 1(1) [OF True Inr] 1(2,3)
      have "fold_loop cb nums ops (i + 1) r' =
            spec_left_fold cb r' (zip (drop i ops) (drop (i + 1) nums))" by simp
      with True Inr n o show ?thesis by (simp add: fold_loop.simps [of cb nums ops i])
    qed
  next
    case False
    then show ?thesis by (simp add: fold_loop.simps [of cb nums ops i])
  qed
qed

lemma solve_pieces:
  assumes "set p0 \<inter> set ops = {}"
    and "\<forall>(c, p) \<in> set rest. c \<in> set ops \<and> set p \<inter> set ops = {}"
    and "\<not> non_numeric_test (last (p0 # map snd rest))"
  shows "solve (Str (p0 @ concat (map (\<lambda>(c, p). c # p) rest))) ops cb =
           map_sum id Num
             (spec_left_fold cb (parseFloat p0) (map (\<lambda>(c, p). (c, parseFloat p)) rest))"
proof -
  let ?expr = "p0 @ concat (map (\<lambda>(c, p). c # p) rest)"
  let ?ps = "p0 # map snd rest"
  have st: "scan_loop ops ?expr scan_init =
      \<lparr>detectedNums = map parseFloat (butlast ?ps), operations = map fst rest,
       numString = last ?ps\<rparr>"
    using scan_loop_pieces [OF assms(1,2), of scan_init] by simp
  have nums: "map parseFloat (butlast ?ps) @ [parseFloat (last ?ps)] = map parseFloat ?ps"
    by (metis append_butlast_last_id list.distinct(1) list.simps(9) map_append map_is_Nil_conv)
  have z: "zip (map fst rest) (map parseFloat (map snd rest)) = map (\<lambda>(c, p). (c, parseFloat p)) rest"
    by (induction rest) auto
  have "fold_loop cb (map parseFloat ?ps) (map fst rest) 1 (map parseFloat ?ps ! 0) =
        spec_left_fold cb (parseFloat p0) (map (\<lambda>(c, p). (c, parseFloat p)) rest)"
    using fold_loop_spec [of 1 "map parseFloat ?ps" "map fst rest" cb "parseFloat p0"] z by simp
  with st nums assms(3) show ?thesis
    by (simp add: solve_def Let_def split: sum.splits)
qed

text \<open>Every string is made of such pieces, for any set of operators.\<close>

lemma pieces_exist:
  "\<exists>p0 rest. s = p0 @ concat (map (\<lambda>(c, p). c # p) rest) \<and> set p0 \<inter> set ops = {} \<and>
     (\<forall>(c, p) \<in> set rest. c \<in> set ops \<and> set p \<inter> set ops = {})"
proof (induction s)
  case Nil
  show ?case
    by (rule exI [of _ "[]"], rule exI [of _ "[]"]) simp
next
  case (Cons x s)
  then obtain p0 rest where s: "s = p0 @ concat (map (\<lambda>(c, p). c # p) rest)"
    and p0: "set p0 \<inter> set ops = {}"
    and rest: "\<forall>(c, p) \<in> set rest. c \<in> set ops \<and> set p \<inter> set ops = {}" by blast
  show ?case
  proof (cases "x \<in> set ops")
    case True
    have 1: "x # s = [] @ concat (map (\<lambda>(c, p). c # p) ((x, p0) # rest))"
      by (subst s) simp
    have 2: "\<forall>(c, p) \<in> set ((x, p0) # rest). c \<in> set ops \<and> set p \<inter> set ops = {}"
      using True p0 rest by simp
    have 3: "set [] \<inter> set ops = {}" by simp
    from 1 2 3 show ?thesis by (intro exI conjI)
  next
    case False
    have 1: "x # s = (x # p0) @ concat (map (\<lambda>(c, p). c # p) rest)"
      by (subst s) simp
    have 3: "set (x # p0) \<inter> set ops = {}" using False p0 by simp
    from 1 rest 3 show ?thesis by (intro exI conjI)
  qed
qed

text \<open>
  Claim C3. When the last number buffer of a level scan is numeric, \<^verbatim>\<open>solve\<close> folds the
  parsed numbers from left to right with the operation it was given: for the expression
  made of the pieces \<open>p0\<close>, \<open>p1\<close>, ... with the operators \<open>c1\<close>, ... of the level between
  them, the result is the fold of the specification, which combines the result so far
  with the next number (every string is made of such pieces in the way its operators of
  the level cut it). Operators of one level are therefore left-associative:
  \<^verbatim>\<open>10-2-3\<close> is 5 and \<^verbatim>\<open>20/2/5\<close> is 2.
\<close>

theorem solve_left_to_right:
  assumes "set p0 \<inter> set ops = {}"
    and "\<forall>(c, p) \<in> set rest. c \<in> set ops \<and> set p \<inter> set ops = {}"
    and "\<not> non_numeric_test (last (p0 # map snd rest))"
  shows "solve (Str (p0 @ concat (map (\<lambda>(c, p). c # p) rest))) ops cb =
           map_sum id Num
             (spec_left_fold cb (parseFloat p0) (map (\<lambda>(c, p). (c, parseFloat p)) rest)) \<and>
         (\<exists>q0 qs. s = q0 @ concat (map (\<lambda>(c, p). c # p) qs) \<and> set q0 \<inter> set ops = {} \<and>
            (\<forall>(c, p) \<in> set qs. c \<in> set ops \<and> set p \<inter> set ops = {})) \<and>
         compute ''10-2-3'' con = (Num (Fin 5), con) \<and>
         compute ''20/2/5'' con = (Num (Fin 2), con)"
  using solve_pieces [OF assms] pieces_exist [of s ops] compute_sub_chain compute_div_chain
  by blast

theorem solve_left_to_right_witness:
  "set ''10'' \<inter> set ''+-'' = {} \<and>
   CHR ''-'' \<in> set ''+-'' \<and> set ''2'' \<inter> set ''+-'' = {} \<and> set ''3'' \<inter> set ''+-'' = {} \<and>
   \<not> non_numeric_test (last (''10'' # map snd [(CHR ''-'', ''2''), (CHR ''-'', ''3'')])) \<and>
   solve (Str ''10-2-3'') ''+-'' operateAS = Inr (Num (Fin 5)) \<and>
   operateAS (Fin 10) (Fin 2) CHR ''-'' = Inr (Fin 8) \<and>
   operateAS (Fin 8) (Fin 3) CHR ''-'' = Inr (Fin 5)"
proof -
  have h1: "set ''10'' \<inter> set ''+-'' = {}" by simp
  have h2: "\<forall>(c, p) \<in> set [(CHR ''-'', ''2''), (CHR ''-'', ''3'')].
      c \<in> set ''+-'' \<and> set p \<inter> set ''+-'' = {}" by simp
  have h3: "\<not> non_numeric_test (last (''10'' # map snd [(CHR ''-'', ''2''), (CHR ''-'', ''3'')]))"
    by code_simp
  have f: "map_sum id Num (spec_left_fold operateAS (parseFloat ''10'')
             (map (\<lambda>(c, p). (c, parseFloat p)) [(CHR ''-'', ''2''), (CHR ''-'', ''3'')])) =
           Inr (Num (Fin 5))"
    by code_simp
  have a: "operateAS (Fin 10) (Fin 2) CHR ''-'' = Inr (Fin 8)" by code_simp
  have b: "operateAS (Fin 8) (Fin 3) CHR ''-'' = Inr (Fin 5)" by code_simp
  from solve_left_to_right [OF h1 h2 h3, where cb = operateAS] f
  have "solve (Str ''10-2-3'') ''+-'' operateAS = Inr (Num (Fin 5))" by simp
  moreover have "CHR ''-'' \<in> set ''+-''" "set ''2'' \<inter> set ''+-'' = {}" "set ''3'' \<inter> set ''+-'' = {}"
    by simp_all
  ultimately show ?thesis using h1 h3 a b by blast
qed

section \<open>Malformed input\<close>

text \<open>
  Claim C6. The last number buffer of a level scan is the part of the expression behind
  its last operator of the level. When it holds a character that is neither a digit nor a
  point, \<^verbatim>\<open>solve\<close> returns the expression it was given as it is, whatever the callback:
  no number and no exception. (Given a number, as \<^verbatim>\<open>computeAS\<close> is after a successful
  multiplication pass, it returns the text of that number.) So \<^verbatim>\<open>compute('2&3')\<close> is
  the string \<^verbatim>\<open>2&3\<close>.
\<close>

theorem solve_echo:
  "numString (scan_loop ops s scan_init) = rev (takeWhile (\<lambda>c. c \<notin> set ops) (rev s)) \<and>
   (non_numeric_test (numString (scan_loop ops s scan_init)) \<longrightarrow>
      solve (Str s) ops cb = Inr (Str s)) \<and>
   (non_numeric_test (numString (scan_loop ops (number_to_string n) scan_init)) \<longrightarrow>
      solve (Num n) ops cb = Inr (Str (number_to_string n))) \<and>
   compute ''2&3'' con = (Str ''2&3'', con)"
  using scan_loop_trailing [of ops s] compute_ampersand [of con]
  by (simp add: solve_def Let_def)

theorem solve_echo_witness:
  "non_numeric_test (numString (scan_loop ''*/'' ''2&3'' scan_init)) \<and>
   solve (Str ''2&3'') ''*/'' operateMD = Inr (Str ''2&3'') \<and>
   non_numeric_test (numString (scan_loop ''+-'' (number_to_string NaN) scan_init)) \<and>
   solve (Num NaN) ''+-'' operateAS = Inr (Str ''NaN'')"
proof -
  have h: "non_numeric_test (numString (scan_loop ''*/'' ''2&3'' scan_init))"
    by code_simp
  have k: "non_numeric_test (numString (scan_loop ''+-'' (number_to_string NaN) scan_init))"
    by code_simp
  from h solve_echo [where ops = "''*/''" and s = "''2&3''" and cb = operateMD]
  have a: "solve (Str ''2&3'') ''*/'' operateMD = Inr (Str ''2&3'')" by blast
  from k solve_echo [where ops = "''+-''" and n = NaN and cb = operateAS]
  have "solve (Num NaN) ''+-'' operateAS = Inr (Str (number_to_string NaN))" by blast
  with h k a show ?thesis by simp
qed

section \<open>Division by zero\<close>

lemma scan_loop_lengths:
  "length (detectedNums st) = length (operations st) \<Longrightarrow>
   length (detectedNums (scan_loop ops s st)) = length (operations (scan_loop ops s st))"
  by (induction s arbitrary: st) auto

lemma scan_loop_operations:
  "set (operations (scan_loop ops s st)) \<subseteq> set (operations st) \<union> set ops"
proof (induction s arbitrary: st)
  case Nil
  then show ?case by simp
next
  case (Cons c s)
  show ?case
  proof (cases "c \<in> set ops")
    case True
    with Cons [of "st\<lparr>detectedNums := detectedNums st @ [parseFloat (numString st)],
                operations := operations st @ [c], numString := []\<rparr>"]
    show ?thesis by auto
  next
    case False
    with Cons [of "st\<lparr>numString := numString st @ [c]\<rparr>"] show ?thesis by auto
  qed
qed

lemma operateMD_throws:
  "operateMD a b c = Inl e \<longleftrightarrow>
     c \<noteq> CHR ''*'' \<and> is_zero b \<and> e = Error ''Cannot divide by zero''"
  by (auto simp: operateMD_def)

lemma operateAS_total: "operateAS a b c \<noteq> Inl e"
  by (simp add: operateAS_def)

lemma spec_left_fold_MD_throws:
  "spec_left_fold operateMD r xs = Inl e \<longleftrightarrow>
     e = Error ''Cannot divide by zero'' \<and> (\<exists>(c, n) \<in> set xs. c \<noteq> CHR ''*'' \<and> is_zero n)"
proof (induction xs arbitrary: r)
  case Nil
  then show ?case by simp
next
  case (Cons x xs)
  obtain c n where x: "x = (c, n)" by (cases x)
  show ?case
  proof (cases "operateMD r n c")
    case (Inl e')
    from operateMD_throws [THEN iffD1, OF Inl]
    have t: "c \<noteq> CHR ''*''" "is_zero n" "e' = Error ''Cannot divide by zero''" by simp_all
    from Inl x have "spec_left_fold operateMD r (x # xs) = Inl e'" by simp
    with t x show ?thesis by auto
  next
    case (Inr r')
    then have "\<not> (c \<noteq> CHR ''*'' \<and> is_zero n)"
      by (auto simp: operateMD_def split: if_splits)
    with Inr Cons [of r'] x show ?thesis by auto
  qed
qed

lemma spec_left_fold_AS_total: "spec_left_fold operateAS r xs \<noteq> Inl e"
proof (induction xs arbitrary: r)
  case Nil
  then show ?case by simp
next
  case (Cons x xs)
  obtain c n where x: "x = (c, n)" by (cases x)
  obtain r' where "operateAS r n c = Inr r'"
    by (cases "operateAS r n c") (simp_all add: operateAS_total)
  with Cons [of r'] x show ?case by simp
qed

text \<open>What \<^verbatim>\<open>solve\<close> returns once the last number buffer has passed the check.\<close>

lemma solve_fold:
  assumes "st = scan_loop ops (to_string v) scan_init"
    and "\<not> non_numeric_test (numString st)"
    and "nums = detectedNums st @ [parseFloat (numString st)]"
  shows "solve v ops cb =
           map_sum id Num (spec_left_fold cb (nums ! 0) (zip (operations st) (drop 1 nums)))"
proof -
  have "length (detectedNums st) = length (operations st)"
    unfolding assms(1) by (rule scan_loop_lengths) simp
  with assms(3) have len: "length nums = length (operations st) + 1" by simp
  from fold_loop_spec [OF _ len, of 1 cb "nums ! 0"]
  have "fold_loop cb nums (operations st) 1 (nums ! 0) =
        spec_left_fold cb (nums ! 0) (zip (operations st) (drop 1 nums))" by simp
  with assms show ?thesis
    by (simp add: solve_def Let_def split: sum.splits)
qed

lemma computeMD_throws:
  assumes "st = scan_loop ''*/'' (to_string v) scan_init"
  shows "computeMD v = Inl e \<longleftrightarrow>
     e = Error ''Cannot divide by zero'' \<and> \<not> non_numeric_test (numString st) \<and>
     (\<exists>i < length (operations st). operations st ! i = CHR ''/'' \<and>
        is_zero ((detectedNums st @ [parseFloat (numString st)]) ! (i + 1)))"
proof (cases "non_numeric_test (numString st)")
  case True
  with assms show ?thesis by (simp add: computeMD_def solve_def Let_def)
next
  case False
  define nums where "nums = detectedNums st @ [parseFloat (numString st)]"
  define ops where "ops = operations st"
  have "length (detectedNums st) = length (operations st)"
    unfolding assms by (rule scan_loop_lengths) simp
  then have len: "length nums = length ops + 1" by (simp add: nums_def ops_def)
  have ops: "set ops \<subseteq> set ''*/''"
    using scan_loop_operations [of "''*/''" "to_string v" scan_init] assms by (simp add: ops_def)
  have nth: "drop 1 nums ! i = nums ! (i + 1)" if "i < length ops" for i
    using that len nth_drop [of 1 nums i] by simp
  have "computeMD v = map_sum id Num (spec_left_fold operateMD (nums ! 0) (zip ops (drop 1 nums)))"
    unfolding computeMD_def ops_def using assms False nums_def by (intro solve_fold)
  then have "computeMD v = Inl e \<longleftrightarrow>
      spec_left_fold operateMD (nums ! 0) (zip ops (drop 1 nums)) = Inl e"
    by (cases "spec_left_fold operateMD (nums ! 0) (zip ops (drop 1 nums))") simp_all
  also have "\<dots> \<longleftrightarrow> e = Error ''Cannot divide by zero'' \<and>
      (\<exists>(c, n) \<in> set (zip ops (drop 1 nums)). c \<noteq> CHR ''*'' \<and> is_zero n)"
    by (rule spec_left_fold_MD_throws)
  also have "(\<exists>(c, n) \<in> set (zip ops (drop 1 nums)). c \<noteq> CHR ''*'' \<and> is_zero n) \<longleftrightarrow>
      (\<exists>i < length ops. ops ! i = CHR ''/'' \<and> is_zero (nums ! (i + 1)))"
  proof
    assume "\<exists>(c, n) \<in> set (zip ops (drop 1 nums)). c \<noteq> CHR ''*'' \<and> is_zero n"
    then obtain c n where m: "(c, n) \<in> set (zip ops (drop 1 nums))"
      and c: "c \<noteq> CHR ''*''" and z: "is_zero n" by blast
    from m obtain i where i: "i < length ops" "ops ! i = c" "drop 1 nums ! i = n"
      by (auto simp: in_set_zip)
    from i(1,2) ops have "c \<in> set ''*/''" by (metis nth_mem subsetD)
    with c have "c = CHR ''/''" by simp
    moreover from i nth have "nums ! (i + 1) = n" by simp
    ultimately show "\<exists>i < length ops. ops ! i = CHR ''/'' \<and> is_zero (nums ! (i + 1))"
      using i z by blast
  next
    assume "\<exists>i < length ops. ops ! i = CHR ''/'' \<and> is_zero (nums ! (i + 1))"
    then obtain i where i: "i < length ops" "ops ! i = CHR ''/''" "is_zero (nums ! (i + 1))"
      by blast
    from i(1) len have "i < length (drop 1 nums)" by simp
    with i nth [OF i(1)] have "(CHR ''/'', nums ! (i + 1)) \<in> set (zip ops (drop 1 nums))"
      unfolding in_set_zip by (intro exI [of _ i]) simp
    with i(3) show "\<exists>(c, n) \<in> set (zip ops (drop 1 nums)). c \<noteq> CHR ''*'' \<and> is_zero n"
      by force
  qed
  finally show ?thesis using False by (simp add: nums_def ops_def)
qed

lemma computeAS_total: "computeAS v \<noteq> Inl e"
proof (cases "non_numeric_test (numString (scan_loop ''+-'' (to_string v) scan_init))")
  case True
  then show ?thesis by (simp add: computeAS_def solve_def Let_def)
next
  case False
  let ?st = "scan_loop ''+-'' (to_string v) scan_init"
  let ?nums = "detectedNums ?st @ [parseFloat (numString ?st)]"
  let ?f = "spec_left_fold operateAS (?nums ! 0) (zip (operations ?st) (drop 1 ?nums))"
  have eq: "computeAS v = map_sum id Num ?f"
    unfolding computeAS_def using False by (intro solve_fold) simp_all
  obtain r where "?f = Inr r"
    using spec_left_fold_AS_total by (cases ?f) auto
  with eq show ?thesis by simp
qed

text \<open>An exception in a bracketed text leaves \<^verbatim>\<open>evaluateExpression\<close> at once.\<close>

lemma evaluateExpression_propagates:
  assumes "findInnermostBrackets expr = Some b"
    and "evaluateExpression (slice expr (openBracket b + 1) (closedBracket b)) = Inl e"
  shows "evaluateExpression expr = Inl e"
  using assms by (simp add: evaluateExpression.simps [of expr] Let_def)

lemma evaluateExpression_error:
  "evaluateExpression expr = Inl e \<Longrightarrow> e = Error ''Cannot divide by zero''"
proof (induction expr rule: evaluateExpression.induct)
  case (1 expr)
  show ?case
  proof (cases "findInnermostBrackets expr")
    case None
    with 1(3) have "computeMD (Str expr) = Inl e"
      by (auto simp: evaluateExpression.simps [of expr] computeAS_total split: sum.splits)
    then show ?thesis using computeMD_throws [OF refl, of "Str expr" e] by simp
  next
    case (Some b)
    let ?inner = "slice expr (openBracket b + 1) (closedBracket b)"
    show ?thesis
    proof (cases "evaluateExpression ?inner")
      case (Inl e')
      with 1(3) Some have "e' = e"
        by (simp add: evaluateExpression.simps [of expr] Let_def)
      with 1(1) [OF Some refl refl refl] Inl show ?thesis by simp
    next
      case (Inr w)
      with 1(3) Some have "evaluateExpression
          (slice expr 0 (openBracket b) @ to_string w @ slice_from expr (closedBracket b + 1)) = Inl e"
        by (simp add: evaluateExpression.simps [of expr] Let_def)
      with 1(2) [OF Some refl refl refl Inr] show ?thesis by simp
    qed
  qed
qed

section \<open>Brackets\<close>

lemma set_slice:
  assumes "b \<le> length s"
  shows "set (slice s a b) = {s ! k |k. a \<le> k \<and> k < b}"
proof -
  have len: "length (slice s a b) = b - a"
    using assms by (simp add: slice_def)
  have nth: "slice s a b ! i = s ! (a + i)" if "i < b - a" for i
    using that assms by (simp add: slice_def)
  show ?thesis
  proof (intro equalityI subsetI)
    fix x assume "x \<in> set (slice s a b)"
    then obtain i where "i < length (slice s a b)" "x = slice s a b ! i"
      by (metis in_set_conv_nth)
    with len nth have "x = s ! (a + i) \<and> a \<le> a + i \<and> a + i < b" by simp
    then show "x \<in> {s ! k |k. a \<le> k \<and> k < b}" by blast
  next
    fix x assume "x \<in> {s ! k |k. a \<le> k \<and> k < b}"
    then obtain k where k: "x = s ! k" "a \<le> k" "k < b" by blast
    then have "k - a < length (slice s a b)" "slice s a b ! (k - a) = x"
      using len nth [of "k - a"] by simp_all
    then show "x \<in> set (slice s a b)" by (metis nth_mem)
  qed
qed

text \<open>The text between the brackets that the search returns holds no bracket.\<close>

lemma innermost_no_brackets:
  assumes "findInnermostBrackets expr = Some b"
  shows "CHR ''('' \<notin> set (slice expr (openBracket b + 1) (closedBracket b))"
    and "CHR '')'' \<notin> set (slice expr (openBracket b + 1) (closedBracket b))"
proof -
  note f = findInnermostBrackets_Some [OF assms]
  from find_loop_Some [OF assms [unfolded findInnermostBrackets_def]]
  have ix: "indexOf expr CHR '')'' (openBracket b) = int (closedBracket b)"
    and later: "\<forall>j. openBracket b < j \<and> j < length expr \<and> expr ! j = CHR ''(''
                  \<longrightarrow> indexOf expr CHR '')'' j = - 1"
    by simp_all
  from indexOf_found [OF ix]
  have first: "\<forall>k. openBracket b \<le> k \<and> k < closedBracket b \<longrightarrow> expr ! k \<noteq> CHR '')''" by simp
  have s: "set (slice expr (openBracket b + 1) (closedBracket b)) =
      {expr ! k |k. openBracket b + 1 \<le> k \<and> k < closedBracket b}"
    using f by (intro set_slice) simp
  show "CHR '')'' \<notin> set (slice expr (openBracket b + 1) (closedBracket b))"
  proof
    assume "CHR '')'' \<in> set (slice expr (openBracket b + 1) (closedBracket b))"
    then obtain k where k: "expr ! k = CHR '')''" "openBracket b + 1 \<le> k" "k < closedBracket b"
      unfolding s by force
    then have "openBracket b \<le> k \<and> k < closedBracket b" by simp
    with first k(1) show False by blast
  qed
  show "CHR ''('' \<notin> set (slice expr (openBracket b + 1) (closedBracket b))"
  proof
    assume "CHR ''('' \<in> set (slice expr (openBracket b + 1) (closedBracket b))"
    then obtain k where k: "expr ! k = CHR ''(''" "openBracket b + 1 \<le> k" "k < closedBracket b"
      unfolding s by force
    with f later have "indexOf expr CHR '')'' k = - 1" by simp
    with indexOf_none [of expr "CHR '')''" k] k f show False by auto
  qed
qed

text \<open>\<^verbatim>\<open>evaluateExpression\<close> is its loop followed by the two level passes.\<close>

lemma evaluateExpression_loop:
  "evaluateExpression expr =
     (case bracket_loop expr of
        Inl e \<Rightarrow> Inl e
      | Inr flat \<Rightarrow> (case computeMD (Str flat) of Inl e \<Rightarrow> Inl e | Inr m \<Rightarrow> computeAS m))"
proof (induction expr rule: bracket_loop.induct)
  case (1 expr)
  show ?case
  proof (cases "findInnermostBrackets expr")
    case None
    then show ?thesis
      by (simp add: evaluateExpression.simps [of expr] bracket_loop.simps [of expr])
  next
    case (Some b)
    show ?thesis
    proof (cases "evaluateExpression (slice expr (openBracket b + 1) (closedBracket b))")
      case (Inl e)
      with Some show ?thesis
        by (simp add: evaluateExpression.simps [of expr] bracket_loop.simps [of expr] Let_def)
    next
      case (Inr v)
      from 1 [OF Some refl refl refl Inr] Some Inr show ?thesis
        by (simp add: evaluateExpression.simps [of expr] bracket_loop.simps [of expr] Let_def)
    qed
  qed
qed

lemma bracket_loop_result:
  "bracket_loop expr = Inr flat \<Longrightarrow> findInnermostBrackets flat = None"
proof (induction expr rule: bracket_loop.induct)
  case (1 expr)
  show ?case
  proof (cases "findInnermostBrackets expr")
    case None
    with 1(2) show ?thesis by (simp add: bracket_loop.simps [of expr])
  next
    case (Some b)
    with 1(2) obtain v where
      v: "evaluateExpression (slice expr (openBracket b + 1) (closedBracket b)) = Inr v"
      and l: "bracket_loop (slice expr 0 (openBracket b) @ to_string v @
                slice_from expr (closedBracket b + 1)) = Inr flat"
      by (auto simp: bracket_loop.simps [of expr] Let_def split: sum.splits)
    from 1(1) [OF Some refl refl refl v l] show ?thesis .
  qed
qed

text \<open>
  Claim C4. While the search finds a pair, \<^verbatim>\<open>evaluateExpression\<close> takes the text between
  the two brackets, which holds no bracket itself (the pair is innermost), evaluates it
  by a call of itself, and goes on with the expression in which the brackets and the text
  between them are replaced by the text of that value; each round removes an opening
  bracket. When the search finds no pair, the two level passes run. So the result is that
  of the level passes on the expression the loop ends with, in which no pair is left.
  \<^verbatim>\<open>compute('12*(12-(6+6))')\<close> is 0 and \<^verbatim>\<open>compute('12*(12-(6))')\<close> is 72.
\<close>

theorem evaluateExpression_brackets:
  "(findInnermostBrackets expr = Some b \<and>
    innerExpr = slice expr (openBracket b + 1) (closedBracket b) \<and>
    leftOuter = slice expr 0 (openBracket b) \<and>
    rightOuter = slice_from expr (closedBracket b + 1) \<longrightarrow>
      expr = leftOuter @ ''('' @ innerExpr @ '')'' @ rightOuter \<and>
      CHR ''('' \<notin> set innerExpr \<and> CHR '')'' \<notin> set innerExpr \<and>
      evaluateExpression expr =
        (case evaluateExpression innerExpr of
           Inl e \<Rightarrow> Inl e
         | Inr v \<Rightarrow> evaluateExpression (leftOuter @ to_string v @ rightOuter)) \<and>
      (evaluateExpression innerExpr = Inr v \<longrightarrow>
         count_open (leftOuter @ to_string v @ rightOuter) < count_open expr)) \<and>
   (findInnermostBrackets expr = None \<longrightarrow>
      evaluateExpression expr =
        (case computeMD (Str expr) of Inl e \<Rightarrow> Inl e | Inr m \<Rightarrow> computeAS m)) \<and>
   evaluateExpression expr =
     (case bracket_loop expr of
        Inl e \<Rightarrow> Inl e
      | Inr flat \<Rightarrow> (case computeMD (Str flat) of Inl e \<Rightarrow> Inl e | Inr m \<Rightarrow> computeAS m)) \<and>
   (bracket_loop expr = Inr flat \<longrightarrow> findInnermostBrackets flat = None) \<and>
   compute ''12*(12-(6+6))'' con = (Num (Fin 0), con) \<and>
   compute ''12*(12-(6))'' con = (Num (Fin 72), con)"
proof (intro conjI impI)
  assume a: "findInnermostBrackets expr = Some b \<and>
    innerExpr = slice expr (openBracket b + 1) (closedBracket b) \<and>
    leftOuter = slice expr 0 (openBracket b) \<and>
    rightOuter = slice_from expr (closedBracket b + 1)"
  then have f: "findInnermostBrackets expr = Some b" by simp
  from brackets_split [OF f] a
  show "expr = leftOuter @ ''('' @ innerExpr @ '')'' @ rightOuter" by simp
  from innermost_no_brackets [OF f] a
  show "CHR ''('' \<notin> set innerExpr" "CHR '')'' \<notin> set innerExpr" by simp_all
  from a have i: "innerExpr = slice expr (openBracket b + 1) (closedBracket b)"
    and l: "leftOuter = slice expr 0 (openBracket b)"
    and r: "rightOuter = slice_from expr (closedBracket b + 1)" by simp_all
  show "evaluateExpression expr =
        (case evaluateExpression innerExpr of
           Inl e \<Rightarrow> Inl e
         | Inr v \<Rightarrow> evaluateExpression (leftOuter @ to_string v @ rightOuter))"
    unfolding i l r
    by (cases "evaluateExpression (slice expr (openBracket b + 1) (closedBracket b))")
      (simp_all add: evaluateExpression.simps [of expr] f Let_def)
  assume v: "evaluateExpression innerExpr = Inr v"
  from evaluateExpression_count [OF v] count_open_split [OF f] a
  show "count_open (leftOuter @ to_string v @ rightOuter) < count_open expr" by simp
next
  assume "findInnermostBrackets expr = None"
  then show "evaluateExpression expr =
        (case computeMD (Str expr) of Inl e \<Rightarrow> Inl e | Inr m \<Rightarrow> computeAS m)"
    by (simp add: evaluateExpression.simps [of expr])
next
  show "evaluateExpression expr =
     (case bracket_loop expr of
        Inl e \<Rightarrow> Inl e
      | Inr flat \<Rightarrow> (case computeMD (Str flat) of Inl e \<Rightarrow> Inl e | Inr m \<Rightarrow> computeAS m))"
    by (rule evaluateExpression_loop)
next
  assume "bracket_loop expr = Inr flat"
  then show "findInnermostBrackets flat = None" by (rule bracket_loop_result)
next
  show "compute ''12*(12-(6+6))'' con = (Num (Fin 0), con)" by (rule compute_nested_zero)
  show "compute ''12*(12-(6))'' con = (Num (Fin 72), con)" by (rule compute_nested_single)
qed

theorem evaluateExpression_brackets_witness:
  "findInnermostBrackets ''12*(12-(6+6))'' = Some \<lparr>openBracket = 7, closedBracket = 11\<rparr> \<and>
   slice ''12*(12-(6+6))'' (7 + 1) 11 = ''6+6'' \<and>
   slice ''12*(12-(6+6))'' 0 7 = ''12*(12-'' \<and>
   slice_from ''12*(12-(6+6))'' (11 + 1) = '')'' \<and>
   evaluateExpression ''6+6'' = Inr (Num (Fin 12)) \<and>
   to_string (Num (Fin 12)) = ''12'' \<and>
   evaluateExpression ''12*(12-(6+6))'' = evaluateExpression ''12*(12-12)'' \<and>
   count_open ''12*(12-12)'' < count_open ''12*(12-(6+6))'' \<and>
   bracket_loop ''12*(12-(6+6))'' = Inr ''12*0'' \<and>
   findInnermostBrackets ''12*0'' = None \<and>
   evaluateExpression ''12*0'' = Inr (Num (Fin 0))"
proof -
  let ?e = "''12*(12-(6+6))''"
  let ?b = "\<lparr>openBracket = 7, closedBracket = 11\<rparr>"
  have f: "findInnermostBrackets ?e = Some ?b" by code_simp
  have i: "slice ?e (7 + 1) 11 = ''6+6''" by code_simp
  have l: "slice ?e 0 7 = ''12*(12-''" by code_simp
  have r: "slice_from ?e (11 + 1) = '')''" by code_simp
  have v: "evaluateExpression ''6+6'' = Inr (Num (Fin 12))" by code_simp
  have t: "to_string (Num (Fin 12)) = ''12''" by code_simp
  have bl: "bracket_loop ?e = Inr ''12*0''" by code_simp
  note inst = evaluateExpression_brackets [where expr = ?e and b = ?b and innerExpr = "''6+6''"
      and leftOuter = "''12*(12-''" and rightOuter = "'')''" and v = "Num (Fin 12)"
      and flat = "''12*0''"]
  from inst f i l r v t
  have step: "evaluateExpression ?e = evaluateExpression ''12*(12-12)''" by simp
  from inst f i l r v t
  have less: "count_open ''12*(12-12)'' < count_open ?e" by simp
  from inst bl have n: "findInnermostBrackets ''12*0'' = None" by blast
  from evaluateExpression_brackets [where expr = "''12*0''"] n
  have "evaluateExpression ''12*0'' =
        (case computeMD (Str ''12*0'') of Inl e \<Rightarrow> Inl e | Inr m \<Rightarrow> computeAS m)" by blast
  moreover have "(case computeMD (Str ''12*0'') of Inl e \<Rightarrow> Inl e | Inr m \<Rightarrow> computeAS m) =
        Inr (Num (Fin 0))" by code_simp
  ultimately have z: "evaluateExpression ''12*0'' = Inr (Num (Fin 0))" by simp
  from f i l r v t step less bl n z show ?thesis by blast
qed

section \<open>Where the division by zero is raised\<close>





lemma compute_cases:
  "compute expr con =
     (case evaluateExpression expr of
        Inr r \<Rightarrow> (r, con)
      | Inl e' \<Rightarrow>
          (Str ''Error: Cannot divide by zero'',
           con @ [''Error whilst calculating result: Error: Cannot divide by zero'']))"
proof (cases "evaluateExpression expr")
  case (Inl e)
  with evaluateExpression_error [OF Inl] show ?thesis by (simp add: compute_def)
next
  case (Inr r)
  then show ?thesis by (simp add: compute_def)
qed




section \<open>The console\<close>

text \<open>
  The console is written when an exception is caught and is never read: the value that
  \<^verbatim>\<open>compute\<close> returns does not depend on it.
\<close>

lemma compute_value_console:
  "fst (compute expression con) = fst (compute expression con')"
  by (cases "evaluateExpression expression") (simp_all add: compute_def)

section \<open>What \<^verbatim>\<open>compute\<close> returns\<close>

text \<open>
  Claim C8. \<^verbatim>\<open>compute\<close> returns on every string (the recursion of
  \<^verbatim>\<open>evaluateExpression\<close> ends, as shown with its definition) and lets no exception
  out: what is thrown is caught and returned as text, with a line on the console. The
  value is a number or a string, but the string is not always the original expression or
  an error message: it is the expression that the bracket loop ended with (the original
  one when the search finds no pair in it), or the text of the number that the
  multiplication pass returned, or the text of the exception.
\<close>

theorem compute_result:
  "((\<exists>n. compute expr con = (Num n, con)) \<or>
    (\<exists>flat. bracket_loop expr = Inr flat \<and>
       (compute expr con = (Str flat, con) \<or>
        (\<exists>n. computeMD (Str flat) = Inr (Num n) \<and>
             compute expr con = (Str (number_to_string n), con)))) \<or>
    (evaluateExpression expr = Inl (Error ''Cannot divide by zero'') \<and>
     compute expr con =
       (Str ''Error: Cannot divide by zero'',
        con @ [''Error whilst calculating result: Error: Cannot divide by zero'']))) \<and>
   (findInnermostBrackets expr = None \<longrightarrow> bracket_loop expr = Inr expr)"
proof (intro conjI impI)
  assume "findInnermostBrackets expr = None"
  then show "bracket_loop expr = Inr expr" by (simp add: bracket_loop.simps [of expr])
next
  let ?err = "evaluateExpression expr = Inl (Error ''Cannot divide by zero'') \<and>
     compute expr con =
       (Str ''Error: Cannot divide by zero'',
        con @ [''Error whilst calculating result: Error: Cannot divide by zero''])"
  have thrown: ?err if "evaluateExpression expr = Inl e" for e
    using that evaluateExpression_error [OF that] by (simp add: compute_def)
  show "(\<exists>n. compute expr con = (Num n, con)) \<or>
    (\<exists>flat. bracket_loop expr = Inr flat \<and>
       (compute expr con = (Str flat, con) \<or>
        (\<exists>n. computeMD (Str flat) = Inr (Num n) \<and>
             compute expr con = (Str (number_to_string n), con)))) \<or> ?err"
  proof (cases "evaluateExpression expr")
    case (Inl e)
    then show ?thesis using thrown by blast
  next
    case (Inr r)
    then have c: "compute expr con = (r, con)" by (simp add: compute_def)
    from Inr evaluateExpression_loop [of expr]
    obtain flat m where flat: "bracket_loop expr = Inr flat"
      and m: "computeMD (Str flat) = Inr m" and r: "computeAS m = Inr r"
      by (auto split: sum.splits)
    from solve_result [OF m [unfolded computeMD_def]]
    have m': "m = Str flat \<or> (\<exists>n. m = Num n)" by simp
    from solve_result [OF r [unfolded computeAS_def]]
    have "r = Str (to_string m) \<or> (\<exists>n. r = Num n)" .
    then show ?thesis
    proof
      assume "\<exists>n. r = Num n"
      with c show ?thesis by auto
    next
      assume s: "r = Str (to_string m)"
      from m' show ?thesis
      proof
        assume "m = Str flat"
        with s c flat show ?thesis by auto
      next
        assume "\<exists>n. m = Num n"
        then obtain n where "m = Num n" by blast
        with s c flat m show ?thesis by auto
      qed
    qed
  qed
qed

theorem compute_result_witness:
  "findInnermostBrackets ''2&3'' = None \<and> bracket_loop ''2&3'' = Inr ''2&3'' \<and>
   compute ''2&3'' [] = (Str ''2&3'', [])"
proof -
  have n: "findInnermostBrackets ''2&3'' = None" by code_simp
  with compute_result [of "''2&3''"] have "bracket_loop ''2&3'' = Inr ''2&3''" by blast
  with n compute_ampersand [of "[]"] show ?thesis by blast
qed

text \<open>
  Two strings that are neither the expression given nor an error message: the inner text
  of a malformed bracket group, and the text of the \<^verbatim>\<open>NaN\<close> that the multiplication
  pass computed.
\<close>

theorem compute_result_counterexample:
  "compute ''(2&3)'' [] = (Str ''2&3'', []) \<and> compute ''2*'' [] = (Str ''NaN'', [])"
proof -
  have "compute ''(2&3)'' [] = (Str ''2&3'', [])" by code_simp
  moreover have "compute ''2*'' [] = (Str ''NaN'', [])" by code_simp
  ultimately show ?thesis by blast
qed

section \<open>An operator at the end or at the start\<close>

lemma parseFloat_empty: "parseFloat [] = NaN"
  by (simp add: parseFloat_def)

lemma non_numeric_test_empty: "\<not> non_numeric_test []"
  by (simp add: non_numeric_test_def)

lemma scan_loop_append:
  "scan_loop ops (a @ b) st = scan_loop ops b (scan_loop ops a st)"
  by (induction a arbitrary: st) simp_all

lemma scan_loop_snoc:
  assumes "c \<in> set ops" and "st' = scan_loop ops s st"
  shows "scan_loop ops (s @ [c]) st =
           \<lparr>detectedNums = detectedNums st' @ [parseFloat (numString st')],
            operations = operations st' @ [c], numString = []\<rparr>"
  using assms by (simp add: scan_loop_append)

lemma scan_loop_detectedNums:
  "\<exists>ys. detectedNums (scan_loop ops s st) = detectedNums st @ ys"
proof (induction s arbitrary: st)
  case Nil
  then show ?case by simp
next
  case (Cons c s)
  show ?case
  proof (cases "c \<in> set ops")
    case True
    from Cons [of "st\<lparr>detectedNums := detectedNums st @ [parseFloat (numString st)],
                operations := operations st @ [c], numString := []\<rparr>"] True
    show ?thesis by auto
  next
    case False
    from Cons [of "st\<lparr>numString := numString st @ [c]\<rparr>"] False show ?thesis by simp
  qed
qed

lemma operateAS_NaN: "operateAS a NaN c = Inr NaN" "operateAS NaN x c = Inr NaN"
  by (simp_all add: operateAS_def js_add_def js_sub_def)

lemma spec_left_fold_AS_first_NaN: "spec_left_fold operateAS NaN xs = Inr NaN"
proof (induction xs)
  case Nil
  then show ?case by simp
next
  case (Cons x xs)
  obtain c n where "x = (c, n)" by (cases x)
  with Cons show ?case by (simp add: operateAS_NaN)
qed

lemma spec_left_fold_AS_last_NaN: "spec_left_fold operateAS r (xs @ [(c, NaN)]) = Inr NaN"
proof (induction xs arbitrary: r)
  case Nil
  then show ?case by (simp add: operateAS_NaN)
next
  case (Cons x xs)
  obtain c' n where x: "x = (c', n)" by (cases x)
  obtain r' where "operateAS r n c' = Inr r'"
    by (cases "operateAS r n c'") (simp_all add: operateAS_total)
  with Cons [of r'] x show ?case by simp
qed

text \<open>The addition pass on an expression that ends with one of its operators.\<close>

lemma computeAS_ends_with_operator:
  assumes "s \<noteq> []" and "last s \<in> set ''+-''"
  shows "numString (scan_loop ''+-'' s scan_init) = []"
    and "computeAS (Str s) = Inr (Num NaN)"
proof -
  define st' where "st' = scan_loop ''+-'' (butlast s) scan_init"
  define first where "first = detectedNums st' @ [parseFloat (numString st')]"
  define st where "st = scan_loop ''+-'' s scan_init"
  from assms(1) have s: "s = butlast s @ [last s]" by simp
  have "scan_loop ''+-'' (butlast s @ [last s]) scan_init =
          \<lparr>detectedNums = first, operations = operations st' @ [last s], numString = []\<rparr>"
    unfolding first_def using assms(2) st'_def by (rule scan_loop_snoc)
  with s have st: "st = \<lparr>detectedNums = first, operations = operations st' @ [last s],
      numString = []\<rparr>"
    by (simp add: st_def)
  then show "numString (scan_loop ''+-'' s scan_init) = []" by (simp add: st_def)
  have "length (detectedNums st') = length (operations st')"
    unfolding st'_def by (rule scan_loop_lengths) simp
  then have len: "length (drop 1 first) = length (operations st')"
    by (simp add: first_def)
  have "first \<noteq> []" by (simp add: first_def)
  then have d: "drop 1 (first @ [NaN]) = drop 1 first @ [NaN]" by (cases first) simp_all
  have z: "zip (operations st' @ [last s]) (drop 1 first @ [NaN]) =
      zip (operations st') (drop 1 first) @ [(last s, NaN)]"
    using len by simp
  have "solve (Str s) ''+-'' operateAS =
      map_sum id Num (spec_left_fold operateAS ((first @ [NaN]) ! 0)
         (zip (operations st) (drop 1 (first @ [NaN]))))"
  proof (rule solve_fold)
    show "st = scan_loop ''+-'' (to_string (Str s)) scan_init" by (simp add: st_def)
    show "\<not> non_numeric_test (numString st)" by (simp add: st non_numeric_test_empty)
    show "first @ [NaN] = detectedNums st @ [parseFloat (numString st)]"
      by (simp add: st parseFloat_empty)
  qed
  also have "zip (operations st) (drop 1 (first @ [NaN])) =
      zip (operations st') (drop 1 first) @ [(last s, NaN)]"
    using d z by (simp add: st)
  finally show "computeAS (Str s) = Inr (Num NaN)"
    by (simp add: computeAS_def spec_left_fold_AS_last_NaN)
qed

lemma last_in_takeWhile_rev: "s \<noteq> [] \<Longrightarrow> P (last s) \<Longrightarrow> last s \<in> set (takeWhile P (rev s))"
  by (induction s rule: rev_induct) simp_all

text \<open>The multiplication pass leaves such an expression as it is.\<close>

lemma computeMD_keeps_sign_end:
  assumes "s \<noteq> []" and "last s \<in> set ''+-''"
  shows "computeMD (Str s) = Inr (Str s)"
proof -
  let ?t = "takeWhile (\<lambda>c. c \<notin> set ''*/'') (rev s)"
  from assms(2) have "last s \<notin> set ''*/''" by auto
  with assms(1) have "last s \<in> set ?t" by (rule last_in_takeWhile_rev)
  then have "last s \<in> set (numString (scan_loop ''*/'' s scan_init))"
    by (simp only: scan_loop_trailing set_rev)
  moreover from assms(2) have "\<not> is_digit (last s) \<and> last s \<noteq> CHR ''.''"
    by (auto simp: is_digit_def)
  ultimately have "non_numeric_test (numString (scan_loop ''*/'' s scan_init))"
    unfolding non_numeric_test_def list_ex_iff by blast
  then show ?thesis by (simp add: computeMD_def solve_def Let_def)
qed

text \<open>The bracket loop does not touch the last character unless it is a closing bracket.\<close>

lemma bracket_loop_last:
  "bracket_loop expr = Inr flat \<Longrightarrow> expr \<noteq> [] \<Longrightarrow> last expr \<noteq> CHR '')'' \<Longrightarrow>
   flat \<noteq> [] \<and> last flat = last expr"
proof (induction expr rule: bracket_loop.induct)
  case (1 expr)
  show ?case
  proof (cases "findInnermostBrackets expr")
    case None
    with 1(2,3) show ?thesis by (simp add: bracket_loop.simps [of expr])
  next
    case (Some b)
    let ?new = "\<lambda>v. slice expr 0 (openBracket b) @ to_string v @
                slice_from expr (closedBracket b + 1)"
    from Some 1(2) obtain v where
      v: "evaluateExpression (slice expr (openBracket b + 1) (closedBracket b)) = Inr v"
      and l: "bracket_loop (?new v) = Inr flat"
      by (auto simp: bracket_loop.simps [of expr] Let_def split: sum.splits)
    note f = findInnermostBrackets_Some [OF Some]
    have "closedBracket b \<noteq> length expr - 1"
      using f(4) 1(3,4) by (auto simp: last_conv_nth)
    with f(2) have lt: "closedBracket b + 1 < length expr" by simp
    then have ne: "slice_from expr (closedBracket b + 1) \<noteq> []"
      and la: "last (slice_from expr (closedBracket b + 1)) = last expr"
      by (simp_all add: slice_from_def)
    then have "?new v \<noteq> []" "last (?new v) = last expr" by simp_all
    with 1(1) [OF Some refl refl refl v l] 1(4) show ?thesis by simp
  qed
qed

text \<open>The multiplication pass leaves an expression of the addition level that starts with a sign.\<close>

lemma computeMD_keeps_sign_start:
  assumes "c \<in> set ''+-''" and "set (c # rest) \<inter> set ''*/'' = {}"
  shows "computeMD (Str (c # rest)) = Inr (Str (c # rest))"
proof -
  from assms(2) have "numString (scan_loop ''*/'' (c # rest) scan_init) = c # rest"
    using scan_loop_numString [of "''*/''" "c # rest" scan_init] by simp
  moreover from assms(1) have "\<not> is_digit c \<and> c \<noteq> CHR ''.''"
    by (auto simp: is_digit_def)
  ultimately have "non_numeric_test (numString (scan_loop ''*/'' (c # rest) scan_init))"
    by (simp add: non_numeric_test_def)
  then show ?thesis by (simp add: computeMD_def solve_def Let_def)
qed

text \<open>Nor does the bracket loop touch the first character unless it is an opening bracket.\<close>

lemma bracket_loop_first:
  "bracket_loop expr = Inr flat \<Longrightarrow> expr \<noteq> [] \<Longrightarrow> hd expr \<noteq> CHR ''('' \<Longrightarrow>
   flat \<noteq> [] \<and> hd flat = hd expr"
proof (induction expr rule: bracket_loop.induct)
  case (1 expr)
  show ?case
  proof (cases "findInnermostBrackets expr")
    case None
    with 1(2,3) show ?thesis by (simp add: bracket_loop.simps [of expr])
  next
    case (Some b)
    let ?new = "\<lambda>v. slice expr 0 (openBracket b) @ to_string v @
                slice_from expr (closedBracket b + 1)"
    from Some 1(2) obtain v where
      v: "evaluateExpression (slice expr (openBracket b + 1) (closedBracket b)) = Inr v"
      and l: "bracket_loop (?new v) = Inr flat"
      by (auto simp: bracket_loop.simps [of expr] Let_def split: sum.splits)
    note f = findInnermostBrackets_Some [OF Some]
    from 1(3,4) have "expr ! 0 \<noteq> CHR ''(''" by (simp add: hd_conv_nth)
    with f(3) have pos: "0 < openBracket b" by (metis gr0I)
    from f have "openBracket b < length expr" by simp
    with pos 1(3) have ne: "slice expr 0 (openBracket b) \<noteq> []"
      and hd: "hd (slice expr 0 (openBracket b)) = hd expr"
      by (simp_all add: slice_def hd_take)
    then have "?new v \<noteq> []" "hd (?new v) = hd expr" by simp_all
    with 1(1) [OF Some refl refl refl v l] 1(4) show ?thesis by simp
  qed
qed

text \<open>What \<^verbatim>\<open>compute\<close> returns, from the expression the bracket loop ends with.\<close>

lemma compute_after_loop:
  "bracket_loop expr = Inl e \<Longrightarrow>
     compute expr con =
       (Str ''Error: Cannot divide by zero'',
        con @ [''Error whilst calculating result: Error: Cannot divide by zero''])"
  "bracket_loop expr = Inr flat \<Longrightarrow> computeMD (Str flat) = Inl e \<Longrightarrow>
     compute expr con =
       (Str ''Error: Cannot divide by zero'',
        con @ [''Error whilst calculating result: Error: Cannot divide by zero''])"
  "bracket_loop expr = Inr flat \<Longrightarrow> computeMD (Str flat) = Inr m \<Longrightarrow> computeAS m = Inr r \<Longrightarrow>
     compute expr con = (r, con)"
proof -
  show "compute expr con =
       (Str ''Error: Cannot divide by zero'',
        con @ [''Error whilst calculating result: Error: Cannot divide by zero''])"
    if "bracket_loop expr = Inl e"
  proof -
    from that have "evaluateExpression expr = Inl e" by (simp add: evaluateExpression_loop)
    then show ?thesis by (simp add: compute_cases)
  qed
  show "compute expr con =
       (Str ''Error: Cannot divide by zero'',
        con @ [''Error whilst calculating result: Error: Cannot divide by zero''])"
    if "bracket_loop expr = Inr flat" "computeMD (Str flat) = Inl e"
  proof -
    from that have "evaluateExpression expr = Inl e" by (simp add: evaluateExpression_loop)
    then show ?thesis by (simp add: compute_cases)
  qed
  show "compute expr con = (r, con)"
    if "bracket_loop expr = Inr flat" "computeMD (Str flat) = Inr m" "computeAS m = Inr r"
  proof -
    from that have "evaluateExpression expr = Inr r" by (simp add: evaluateExpression_loop)
    then show ?thesis by (simp add: compute_cases)
  qed
qed

text \<open>A level pass on an expression that ends with one of its operators.\<close>

lemma solve_ends_with_operator:
  assumes "s \<noteq> []" and "last s \<in> set ops"
  shows "\<exists>r xs. solve (Str s) ops cb =
           map_sum id Num (spec_left_fold cb r (xs @ [(last s, NaN)]))"
proof -
  define st' where "st' = scan_loop ops (butlast s) scan_init"
  define first where "first = detectedNums st' @ [parseFloat (numString st')]"
  define st where "st = scan_loop ops s scan_init"
  from assms(1) have s: "s = butlast s @ [last s]" by simp
  have "scan_loop ops (butlast s @ [last s]) scan_init =
          \<lparr>detectedNums = first, operations = operations st' @ [last s], numString = []\<rparr>"
    unfolding first_def using assms(2) st'_def by (rule scan_loop_snoc)
  with s have st: "st = \<lparr>detectedNums = first, operations = operations st' @ [last s],
      numString = []\<rparr>"
    by (simp add: st_def)
  have "length (detectedNums st') = length (operations st')"
    unfolding st'_def by (rule scan_loop_lengths) simp
  then have len: "length (drop 1 first) = length (operations st')"
    by (simp add: first_def)
  have "first \<noteq> []" by (simp add: first_def)
  then have d: "drop 1 (first @ [NaN]) = drop 1 first @ [NaN]" by (cases first) simp_all
  have z: "zip (operations st' @ [last s]) (drop 1 first @ [NaN]) =
      zip (operations st') (drop 1 first) @ [(last s, NaN)]"
    using len by simp
  have "solve (Str s) ops cb =
      map_sum id Num (spec_left_fold cb ((first @ [NaN]) ! 0)
         (zip (operations st) (drop 1 (first @ [NaN]))))"
  proof (rule solve_fold)
    show "st = scan_loop ops (to_string (Str s)) scan_init" by (simp add: st_def)
    show "\<not> non_numeric_test (numString st)" by (simp add: st non_numeric_test_empty)
    show "first @ [NaN] = detectedNums st @ [parseFloat (numString st)]"
      by (simp add: st parseFloat_empty)
  qed
  also have "zip (operations st) (drop 1 (first @ [NaN])) =
      zip (operations st') (drop 1 first) @ [(last s, NaN)]"
    using d z by (simp add: st)
  finally show ?thesis by blast
qed

lemma operateMD_NaN: "operateMD a NaN c = Inr NaN"
  by (simp add: operateMD_def js_mul_def js_div_def is_zero_def)

lemma spec_left_fold_MD_last_NaN:
  "spec_left_fold operateMD r (xs @ [(c, NaN)]) = Inl (Error ''Cannot divide by zero'') \<or>
   spec_left_fold operateMD r (xs @ [(c, NaN)]) = Inr NaN"
proof (induction xs arbitrary: r)
  case Nil
  then show ?case by (simp add: operateMD_NaN)
next
  case (Cons x xs)
  obtain c' n where x: "x = (c', n)" by (cases x)
  show ?case
  proof (cases "operateMD r n c'")
    case (Inl e)
    with operateMD_throws [THEN iffD1, OF Inl] x show ?thesis by simp
  next
    case (Inr r')
    with Cons [of r'] x show ?thesis by simp
  qed
qed

lemma computeMD_ends_with_operator:
  assumes "s \<noteq> []" and "last s \<in> set ''*/''"
  shows "computeMD (Str s) = Inl (Error ''Cannot divide by zero'') \<or>
         computeMD (Str s) = Inr (Num NaN)"
proof -
  from solve_ends_with_operator [OF assms, of operateMD]
  obtain r xs where "computeMD (Str s) =
      map_sum id Num (spec_left_fold operateMD r (xs @ [(last s, NaN)]))"
    unfolding computeMD_def by blast
  with spec_left_fold_MD_last_NaN [of r xs "last s"] show ?thesis by auto
qed

lemma computeAS_NaN: "computeAS (Num NaN) = Inr (Str ''NaN'')"
  by code_simp

text \<open>The addition pass on an expression that starts with any of the four operators.\<close>

lemma parseFloat_operator:
  assumes "c \<in> set ''*/''"
  shows "parseFloat (c # s) = NaN"
proof -
  have "parseFloat (CHR ''*'' # s) = NaN"
    by (simp add: parseFloat_def is_white_space_def is_digit_def)
  moreover have "parseFloat (CHR ''/'' # s) = NaN"
    by (simp add: parseFloat_def is_white_space_def is_digit_def)
  moreover from assms have "c = CHR ''*'' \<or> c = CHR ''/''" by simp
  ultimately show ?thesis by blast
qed

lemma computeAS_starts_with_any_operator:
  assumes "c \<in> set ''+-*/''"
    and "\<not> non_numeric_test (numString (scan_loop ''+-'' (c # t) scan_init))"
  shows "computeAS (Str (c # t)) = Inr (Num NaN)"
proof -
  from pieces_exist [of "c # t" "''+-''"]
  obtain p0 rest where s: "c # t = p0 @ concat (map (\<lambda>(c, p). c # p) rest)"
    and p0: "set p0 \<inter> set ''+-'' = {}"
    and rest: "\<forall>(c, p) \<in> set rest. c \<in> set ''+-'' \<and> set p \<inter> set ''+-'' = {}" by blast
  from scan_loop_pieces [OF p0 rest, of scan_init] s
  have ns: "numString (scan_loop ''+-'' (c # t) scan_init) = last (p0 # map snd rest)" by simp
  with assms(2) have num: "\<not> non_numeric_test (last (p0 # map snd rest))" by simp
  have first: "parseFloat p0 = NaN"
  proof (cases p0)
    case Nil
    then show ?thesis by (simp add: parseFloat_empty)
  next
    case (Cons x p0')
    with s have x: "x = c" by simp
    with Cons p0 have "c \<notin> set ''+-''" by auto
    with assms(1) have "c \<in> set ''*/''" by auto
    with Cons x show ?thesis by (simp only: parseFloat_operator)
  qed
  from solve_pieces [OF p0 rest num, of operateAS] s first
  show ?thesis by (simp add: computeAS_def spec_left_fold_AS_first_NaN)
qed

text \<open>The addition pass on the text of a negative number.\<close>

lemma trailing_after_operator:
  assumes "sg \<in> set ops" and "set ds \<inter> set ops = {}"
  shows "numString (scan_loop ops (a @ sg # ds) scan_init) = ds"
proof -
  define st where "st = scan_loop ops a scan_init"
  have "scan_loop ops (a @ sg # ds) scan_init = scan_loop ops (sg # ds) st"
    by (simp add: scan_loop_append st_def)
  also have "\<dots> = scan_loop ops (ds @ [])
      (st\<lparr>detectedNums := detectedNums st @ [parseFloat (numString st)],
          operations := operations st @ [sg], numString := []\<rparr>)"
    using assms(1) by simp
  finally show ?thesis using scan_loop_piece [OF assms(2), of "[]"] by simp
qed

lemma numeric_chars:
  assumes "set ds \<subseteq> set ''0123456789.''"
  shows "\<not> non_numeric_test ds"
proof -
  have "is_digit c \<or> c = CHR ''.''" if "c \<in> set ''0123456789.''" for c
    using that by (auto simp: is_digit_def)
  with assms have "\<forall>c \<in> set ds. is_digit c \<or> c = CHR ''.''" by blast
  then show ?thesis unfolding non_numeric_test_def list_ex_iff by blast
qed

lemma format_digits_shape:
  "set (format_digits s n) \<subseteq> set ''0123456789.'' \<or>
   (\<exists>a sg ds. format_digits s n = a @ sg # ds \<and> sg \<in> set ''+-'' \<and>
      set ds \<subseteq> set ''0123456789.'')"
proof -
  define D where "D = set ''0123456789.''"
  let ?ds = "digit_chars s"
  let ?es = "digit_chars (nat \<bar>n - 1\<bar>)"
  have sub: "set ''0123456789'' \<subseteq> D" by (simp add: D_def)
  have ds: "set ?ds \<subseteq> D"
    using digit_chars_digits [of s] sub by (rule order_trans)
  have es: "set ?es \<subseteq> D"
    using digit_chars_digits [of "nat \<bar>n - 1\<bar>"] sub by (rule order_trans)
  have t: "set (take k ?ds) \<subseteq> D" for k
    using set_take_subset [of k ?ds] ds by (rule order_trans)
  have d: "set (drop k ?ds) \<subseteq> D" for k
    using set_drop_subset [of k ?ds] ds by (rule order_trans)
  have z: "set (replicate k CHR ''0'') \<subseteq> D" for k
    by (simp add: D_def set_replicate_conv_if)
  have p: "set ''.'' \<subseteq> D" "set ''0.'' \<subseteq> D" by (simp_all add: D_def)
  have "set (format_digits s n) \<subseteq> D \<or>
   (\<exists>a sg ds. format_digits s n = a @ sg # ds \<and> sg \<in> set ''+-'' \<and> set ds \<subseteq> D)"
  proof (cases "int (length ?ds) \<le> n \<and> n \<le> 21")
    case True
    then have "format_digits s n = ?ds @ replicate (nat (n - int (length ?ds))) CHR ''0''"
      unfolding format_digits_def Let_def by (simp only: if_True simp_thms)
    moreover have "set (?ds @ replicate (nat (n - int (length ?ds))) CHR ''0'') \<subseteq> D"
      by (intro subset_app ds z)
    ultimately have "set (format_digits s n) \<subseteq> D" by (simp only:)
    then show ?thesis by (rule disjI1)
  next
    case c1: False
    show ?thesis
    proof (cases "0 < n \<and> n \<le> 21")
      case True
      with c1 have nk: "\<not> int (length ?ds) \<le> n" by simp
      have "format_digits s n = take (nat n) ?ds @ ''.'' @ drop (nat n) ?ds"
        unfolding format_digits_def Let_def by (simp only: nk True if_True if_False simp_thms)
      moreover have "set (take (nat n) ?ds @ ''.'' @ drop (nat n) ?ds) \<subseteq> D"
        by (intro subset_app t d p)
      ultimately have "set (format_digits s n) \<subseteq> D" by (simp only:)
      then show ?thesis by (rule disjI1)
    next
      case c2: False
      show ?thesis
      proof (cases "- 6 < n \<and> n \<le> 0")
        case True
        have "format_digits s n = ''0.'' @ replicate (nat (- n)) CHR ''0'' @ ?ds"
          unfolding format_digits_def Let_def
          by (simp only: c1 c2 True if_True if_False simp_thms)
        moreover have "set (''0.'' @ replicate (nat (- n)) CHR ''0'' @ ?ds) \<subseteq> D"
          by (intro subset_app ds z p)
        ultimately have "set (format_digits s n) \<subseteq> D" by (simp only:)
        then show ?thesis by (rule disjI1)
      next
        case c3: False
        define sg where "sg = (if n - 1 < 0 then CHR ''-'' else CHR ''+'')"
        define a where "a = (if int (length ?ds) = 1 then ?ds @ ''e''
                             else take 1 ?ds @ ''.'' @ drop 1 ?ds @ ''e'')"
        have "format_digits s n =
            (if int (length ?ds) = 1
             then ?ds @ ''e'' @ (if n - 1 < 0 then ''-'' else ''+'') @ ?es
             else take 1 ?ds @ ''.'' @ drop 1 ?ds @ ''e'' @
                  (if n - 1 < 0 then ''-'' else ''+'') @ ?es)"
          unfolding format_digits_def Let_def by (simp only: c1 c2 c3 if_False)
        also have "\<dots> = a @ sg # ?es"
          by (simp add: a_def sg_def)
        finally have 1: "format_digits s n = a @ sg # ?es" .
        have 2: "sg \<in> set ''+-''" by (simp add: sg_def)
        from 1 2 es have "\<exists>a sg ds. format_digits s n = a @ sg # ds \<and> sg \<in> set ''+-'' \<and>
            set ds \<subseteq> D"
          by (intro exI conjI)
        then show ?thesis by (rule disjI2)
      qed
    qed
  qed
  then show ?thesis unfolding D_def .
qed

lemma computeAS_negative:
  assumes "q < 0"
  shows "computeAS (Num (Fin q)) = Inr (Num NaN)"
proof -
  obtain s n where sn: "shortest_digits \<bar>q\<bar> (dec_exponent \<bar>q\<bar>) 1 17 = (s, n)"
    by (cases "shortest_digits \<bar>q\<bar> (dec_exponent \<bar>q\<bar>) 1 17") blast
  with assms have str: "number_to_string (Fin q) = CHR ''-'' # format_digits s n"
    by (simp add: Let_def)
  have dis: "set ds \<inter> set ''+-'' = {}" if "set ds \<subseteq> set ''0123456789.''" for ds
  proof -
    have "c \<notin> set ds" if c: "c \<in> set ''+-''" for c
    proof
      assume "c \<in> set ds"
      with \<open>set ds \<subseteq> set ''0123456789.''\<close> have "c \<in> set ''0123456789.''" by (rule subsetD)
      with c show False by auto
    qed
    then show ?thesis by blast
  qed
  have "\<not> non_numeric_test (numString (scan_loop ''+-'' (CHR ''-'' # format_digits s n) scan_init))"
  proof -
    from format_digits_shape [of s n]
    consider "set (format_digits s n) \<subseteq> set ''0123456789.''"
      | a sg ds where "format_digits s n = a @ sg # ds" "sg \<in> set ''+-''"
          "set ds \<subseteq> set ''0123456789.''"
      by blast
    then show ?thesis
    proof cases
      case 1
      have "numString (scan_loop ''+-'' ([] @ CHR ''-'' # format_digits s n) scan_init) =
          format_digits s n"
        by (rule trailing_after_operator) (use dis [OF 1] in simp_all)
      with numeric_chars [OF 1] show ?thesis by simp
    next
      case 2
      have "numString (scan_loop ''+-'' ((CHR ''-'' # a) @ sg # ds) scan_init) = ds"
        using 2(2) dis [OF 2(3)] by (rule trailing_after_operator)
      with numeric_chars [OF 2(3)] 2(1) show ?thesis by simp
    qed
  qed
  then have "computeAS (Str (CHR ''-'' # format_digits s n)) = Inr (Num NaN)"
    by (intro computeAS_starts_with_any_operator) simp_all
  with str show ?thesis by (simp add: computeAS_def solve_def)
qed

lemma spec_left_fold_MD_first_NaN:
  "spec_left_fold operateMD NaN xs = Inl (Error ''Cannot divide by zero'') \<or>
   spec_left_fold operateMD NaN xs = Inr NaN"
proof (induction xs)
  case Nil
  then show ?case by simp
next
  case (Cons x xs)
  obtain c n where x: "x = (c, n)" by (cases x)
  show ?case
  proof (cases "operateMD NaN n c")
    case (Inl e)
    with operateMD_throws [THEN iffD1, OF Inl] x show ?thesis by simp
  next
    case (Inr r)
    then have "r = NaN"
      by (auto simp: operateMD_def js_mul_def js_div_def split: if_splits)
    with Inr Cons x show ?thesis by simp
  qed
qed

text \<open>The multiplication pass on an expression that starts with one of its operators.\<close>

lemma computeMD_starts_with_operator:
  assumes "c \<in> set ''*/''"
    and "\<not> non_numeric_test (numString (scan_loop ''*/'' (c # t) scan_init))"
  shows "computeMD (Str (c # t)) = Inl (Error ''Cannot divide by zero'') \<or>
         computeMD (Str (c # t)) = Inr (Num NaN)"
proof -
  define st where "st = scan_loop ''*/'' (c # t) scan_init"
  define nums where "nums = detectedNums st @ [parseFloat (numString st)]"
  from assms(1) have "st = scan_loop ''*/'' t
      \<lparr>detectedNums = [parseFloat []], operations = [c], numString = []\<rparr>"
    by (auto simp: st_def)
  with scan_loop_detectedNums [of "''*/''" t
      "\<lparr>detectedNums = [parseFloat []], operations = [c], numString = []\<rparr>"]
  obtain ys where "detectedNums st = [parseFloat []] @ ys" by auto
  then have first: "nums ! 0 = NaN" by (simp add: nums_def parseFloat_empty)
  have "solve (Str (c # t)) ''*/'' operateMD =
      map_sum id Num (spec_left_fold operateMD (nums ! 0) (zip (operations st) (drop 1 nums)))"
    using assms(2) by (intro solve_fold) (simp_all add: st_def nums_def)
  with first spec_left_fold_MD_first_NaN [of "zip (operations st) (drop 1 nums)"]
  show ?thesis by (auto simp: computeMD_def)
qed

text \<open>
  Claim C10, as the code has it. When an expression ends with an operator of the level
  scanned, the last number buffer is empty, passes the check and is parsed as
  \<^verbatim>\<open>NaN\<close>; when it starts with one, the first number is \<^verbatim>\<open>NaN\<close>. The bracket loop keeps
  the first and the last character, so with \<open>flat\<close> the expression it ends with:
  an expression that ends with \<^verbatim>\<open>+\<close> or \<^verbatim>\<open>-\<close> gives \<^verbatim>\<open>NaN\<close>, and the error text when
  the loop has raised the division by zero; an expression that ends with \<^verbatim>\<open>*\<close> or
  \<^verbatim>\<open>/\<close> gives the string \<^verbatim>\<open>NaN\<close>, the number of the multiplication pass echoed by the
  addition pass, and the error text when the loop or that pass has raised; an expression
  that starts with one of the four operators gives \<^verbatim>\<open>NaN\<close> when the multiplication pass
  returns \<open>flat\<close> as it is (which it does when \<open>flat\<close> starts with a sign and holds no
  \<^verbatim>\<open>*\<close> or \<^verbatim>\<open>/\<close>) and the last number buffer of the addition pass is numeric, and also
  when the multiplication pass evaluates \<open>flat\<close> to a negative finite number; an
  expression that starts with \<^verbatim>\<open>*\<close> or \<^verbatim>\<open>/\<close> and whose multiplication pass reaches its
  fold gives the string \<^verbatim>\<open>NaN\<close> again, or the error text.
  \<^verbatim>\<open>compute('2+')\<close> and \<^verbatim>\<open>compute('-5')\<close> are \<^verbatim>\<open>NaN\<close>.
\<close>

theorem operator_at_end_or_start:
  "(s \<noteq> [] \<and> last s \<in> set ops \<longrightarrow>
      numString (scan_loop ops s scan_init) = [] \<and> \<not> non_numeric_test [] \<and>
      parseFloat [] = NaN) \<and>
   (d \<in> set ops \<longrightarrow> hd (detectedNums (scan_loop ops (d # t) scan_init)) = NaN) \<and>
   (findInnermostBrackets expr = None \<longrightarrow> bracket_loop expr = Inr expr) \<and>
   (bracket_loop expr = Inl e \<longrightarrow>
      compute expr con =
        (Str ''Error: Cannot divide by zero'',
         con @ [''Error whilst calculating result: Error: Cannot divide by zero''])) \<and>
   (bracket_loop expr = Inr flat \<and> computeMD (Str flat) = Inl e \<longrightarrow>
      compute expr con =
        (Str ''Error: Cannot divide by zero'',
         con @ [''Error whilst calculating result: Error: Cannot divide by zero''])) \<and>
   (expr \<noteq> [] \<and> last expr \<in> set ''+-'' \<and> bracket_loop expr = Inr flat \<longrightarrow>
      compute expr con = (Num NaN, con)) \<and>
   (expr \<noteq> [] \<and> last expr \<in> set ''*/'' \<and> bracket_loop expr = Inr flat \<longrightarrow>
      (computeMD (Str flat) = Inl (Error ''Cannot divide by zero'') \<or>
       computeMD (Str flat) = Inr (Num NaN)) \<and>
      (computeMD (Str flat) = Inr (Num NaN) \<longrightarrow> compute expr con = (Str ''NaN'', con))) \<and>
   (c \<in> set ''+-*/'' \<and> bracket_loop (c # rest) = Inr flat \<longrightarrow>
      flat \<noteq> [] \<and> hd flat = c \<and>
      (computeMD (Str flat) = Inr (Str flat) \<and>
       \<not> non_numeric_test (numString (scan_loop ''+-'' flat scan_init)) \<longrightarrow>
         compute (c # rest) con = (Num NaN, con)) \<and>
      (c \<in> set ''+-'' \<and> set flat \<inter> set ''*/'' = {} \<longrightarrow>
         computeMD (Str flat) = Inr (Str flat))) \<and>
   (c \<in> set ''*/'' \<and> bracket_loop (c # rest) = Inr flat \<and>
    \<not> non_numeric_test (numString (scan_loop ''*/'' flat scan_init)) \<longrightarrow>
      (computeMD (Str flat) = Inl (Error ''Cannot divide by zero'') \<or>
       computeMD (Str flat) = Inr (Num NaN)) \<and>
      (computeMD (Str flat) = Inr (Num NaN) \<longrightarrow> compute (c # rest) con = (Str ''NaN'', con))) \<and>
   (bracket_loop expr = Inr flat \<and> computeMD (Str flat) = Inr (Num (Fin q)) \<and> q < 0 \<longrightarrow>
      compute expr con = (Num NaN, con)) \<and>
   compute ''2+'' con = (Num NaN, con) \<and>
   compute ''-5'' con = (Num NaN, con)"
proof (intro conjI impI)
  assume a: "s \<noteq> [] \<and> last s \<in> set ops"
  then have "s = butlast s @ [last s]" by simp
  with a scan_loop_snoc [of "last s" ops _ "butlast s" scan_init]
  show "numString (scan_loop ops s scan_init) = []" by (metis scan_state.select_convs(3))
  show "\<not> non_numeric_test []" by (rule non_numeric_test_empty)
  show "parseFloat [] = NaN" by (rule parseFloat_empty)
next
  assume d: "d \<in> set ops"
  from scan_loop_detectedNums [of ops t
      "\<lparr>detectedNums = [parseFloat []], operations = [d], numString = []\<rparr>"]
  obtain ys where "detectedNums (scan_loop ops t
      \<lparr>detectedNums = [parseFloat []], operations = [d], numString = []\<rparr>) = [parseFloat []] @ ys"
    by auto
  with d show "hd (detectedNums (scan_loop ops (d # t) scan_init)) = NaN"
    by (simp add: parseFloat_empty)
next
  assume "findInnermostBrackets expr = None"
  then show "bracket_loop expr = Inr expr" by (simp add: bracket_loop.simps [of expr])
next
  assume "bracket_loop expr = Inl e"
  then show "compute expr con =
        (Str ''Error: Cannot divide by zero'',
         con @ [''Error whilst calculating result: Error: Cannot divide by zero''])"
    by (rule compute_after_loop(1))
next
  assume "bracket_loop expr = Inr flat \<and> computeMD (Str flat) = Inl e"
  then show "compute expr con =
        (Str ''Error: Cannot divide by zero'',
         con @ [''Error whilst calculating result: Error: Cannot divide by zero''])"
    using compute_after_loop(2) by blast
next
  assume a: "expr \<noteq> [] \<and> last expr \<in> set ''+-'' \<and> bracket_loop expr = Inr flat"
  then have l: "bracket_loop expr = Inr flat" and ne: "expr \<noteq> []" by simp_all
  from a have "last expr \<noteq> CHR '')''" by auto
  from bracket_loop_last [OF l ne this] a
  have flat: "flat \<noteq> []" "last flat \<in> set ''+-''" by simp_all
  from compute_after_loop(3) [OF l computeMD_keeps_sign_end [OF flat]
      computeAS_ends_with_operator(2) [OF flat]]
  show "compute expr con = (Num NaN, con)" .
next
  assume a: "expr \<noteq> [] \<and> last expr \<in> set ''*/'' \<and> bracket_loop expr = Inr flat"
  then have l: "bracket_loop expr = Inr flat" and ne: "expr \<noteq> []" by simp_all
  from a have "last expr \<noteq> CHR '')''" by auto
  from bracket_loop_last [OF l ne this] a
  have flat: "flat \<noteq> []" "last flat \<in> set ''*/''" by simp_all
  from computeMD_ends_with_operator [OF flat]
  show "computeMD (Str flat) = Inl (Error ''Cannot divide by zero'') \<or>
       computeMD (Str flat) = Inr (Num NaN)" .
  assume "computeMD (Str flat) = Inr (Num NaN)"
  from compute_after_loop(3) [OF l this computeAS_NaN]
  show "compute expr con = (Str ''NaN'', con)" .
next
  assume a: "c \<in> set ''+-*/'' \<and> bracket_loop (c # rest) = Inr flat"
  then have c: "c \<in> set ''+-*/''" and l: "bracket_loop (c # rest) = Inr flat" by simp_all
  from c have "hd (c # rest) \<noteq> CHR ''(''" by auto
  from bracket_loop_first [OF l _ this]
  show ne: "flat \<noteq> []" and hd: "hd flat = c" by simp_all
  then have flat: "flat = c # tl flat" by (cases flat) simp_all
  {
    assume b: "computeMD (Str flat) = Inr (Str flat) \<and>
       \<not> non_numeric_test (numString (scan_loop ''+-'' flat scan_init))"
    then have "\<not> non_numeric_test (numString (scan_loop ''+-'' (c # tl flat) scan_init))"
      using flat by simp
    from computeAS_starts_with_any_operator [OF c this] flat
    have "computeAS (Str flat) = Inr (Num NaN)" by simp
    with compute_after_loop(3) [OF l] b
    show "compute (c # rest) con = (Num NaN, con)" by blast
  }
  {
    assume b: "c \<in> set ''+-'' \<and> set flat \<inter> set ''*/'' = {}"
    then have "set (c # tl flat) \<inter> set ''*/'' = {}" using flat by simp
    with b computeMD_keeps_sign_start [of c "tl flat"] flat
    show "computeMD (Str flat) = Inr (Str flat)" by simp
  }
next
  assume a: "c \<in> set ''*/'' \<and> bracket_loop (c # rest) = Inr flat \<and>
    \<not> non_numeric_test (numString (scan_loop ''*/'' flat scan_init))"
  then have c: "c \<in> set ''*/''" and l: "bracket_loop (c # rest) = Inr flat" by simp_all
  from c have "hd (c # rest) \<noteq> CHR ''(''" by auto
  from bracket_loop_first [OF l _ this]
  have "flat \<noteq> []" "hd flat = c" by simp_all
  then have flat: "flat = c # tl flat" by (cases flat) simp_all
  with a have "\<not> non_numeric_test (numString (scan_loop ''*/'' (c # tl flat) scan_init))"
    by simp
  from computeMD_starts_with_operator [OF c this] flat
  show "computeMD (Str flat) = Inl (Error ''Cannot divide by zero'') \<or>
       computeMD (Str flat) = Inr (Num NaN)" by simp
  assume "computeMD (Str flat) = Inr (Num NaN)"
  from compute_after_loop(3) [OF l this computeAS_NaN]
  show "compute (c # rest) con = (Str ''NaN'', con)" .
next
  assume a: "bracket_loop expr = Inr flat \<and> computeMD (Str flat) = Inr (Num (Fin q)) \<and> q < 0"
  then have "computeAS (Num (Fin q)) = Inr (Num NaN)" by (simp add: computeAS_negative)
  with compute_after_loop(3) a show "compute expr con = (Num NaN, con)" by blast
next
  show "compute ''2+'' con = (Num NaN, con)" by code_simp
  show "compute ''-5'' con = (Num NaN, con)" by code_simp
qed

theorem operator_at_end_or_start_witness:
  "last ''(2*3)+'' \<in> set ''+-'' \<and>
   numString (scan_loop ''+-'' ''(2*3)+'' scan_init) = [] \<and>
   bracket_loop ''(2*3)+'' = Inr ''6+'' \<and>
   compute ''(2*3)+'' [] = (Num NaN, []) \<and>
   last ''2*'' \<in> set ''*/'' \<and>
   bracket_loop ''2*'' = Inr ''2*'' \<and>
   computeMD (Str ''2*'') = Inr (Num NaN) \<and>
   compute ''2*'' [] = (Str ''NaN'', []) \<and>
   bracket_loop ''-(5)+3'' = Inr ''-5+3'' \<and>
   computeMD (Str ''-5+3'') = Inr (Str ''-5+3'') \<and>
   \<not> non_numeric_test (numString (scan_loop ''+-'' ''-5+3'' scan_init)) \<and>
   hd (detectedNums (scan_loop ''+-'' ''-5+3'' scan_init)) = NaN \<and>
   compute ''-(5)+3'' [] = (Num NaN, []) \<and>
   bracket_loop ''-5*2'' = Inr ''-5*2'' \<and>
   computeMD (Str ''-5*2'') = Inr (Num (Fin (- 10))) \<and>
   compute ''-5*2'' [] = (Num NaN, []) \<and>
   bracket_loop ''/5'' = Inr ''/5'' \<and>
   \<not> non_numeric_test (numString (scan_loop ''*/'' ''/5'' scan_init)) \<and>
   computeMD (Str ''/5'') = Inr (Num NaN) \<and>
   compute ''/5'' [] = (Str ''NaN'', []) \<and>
   bracket_loop ''(1/0)+'' = Inl (Error ''Cannot divide by zero'') \<and>
   compute ''(1/0)+'' [] =
     (Str ''Error: Cannot divide by zero'',
      [''Error whilst calculating result: Error: Cannot divide by zero''])"
proof -
  have e1: "''(2*3)+'' \<noteq> [] \<and> last ''(2*3)+'' \<in> set ''+-''" by simp
  have l1: "bracket_loop ''(2*3)+'' = Inr ''6+''" by code_simp
  note i1 = operator_at_end_or_start [where s = "''(2*3)+''" and ops = "''+-''"
      and expr = "''(2*3)+''" and flat = "''6+''" and con = "[]"]
  from i1 e1 have a1: "numString (scan_loop ''+-'' ''(2*3)+'' scan_init) = []" by blast
  from i1 e1 l1 have a2: "compute ''(2*3)+'' [] = (Num NaN, [])" by blast
  have e2: "''2*'' \<noteq> [] \<and> last ''2*'' \<in> set ''*/''" by simp
  have l2: "bracket_loop ''2*'' = Inr ''2*''" by code_simp
  have m2: "computeMD (Str ''2*'') = Inr (Num NaN)" by code_simp
  note i2 = operator_at_end_or_start [where expr = "''2*''" and flat = "''2*''" and con = "[]"]
  from i2 e2 l2 m2 have a3: "compute ''2*'' [] = (Str ''NaN'', [])" by blast
  have c3: "CHR ''-'' \<in> set ''+-*/''" "CHR ''-'' \<in> set ''+-''" by simp_all
  have l3: "bracket_loop (CHR ''-'' # ''(5)+3'') = Inr ''-5+3''" by code_simp
  have m3: "computeMD (Str ''-5+3'') = Inr (Str ''-5+3'')" by code_simp
  have n3: "\<not> non_numeric_test (numString (scan_loop ''+-'' ''-5+3'' scan_init))" by code_simp
  note i3 = operator_at_end_or_start [where c = "CHR ''-''" and rest = "''(5)+3''"
      and flat = "''-5+3''" and con = "[]" and d = "CHR ''-''" and t = "''5+3''" and ops = "''+-''"]
  from i3 c3 l3 m3 n3 have a4: "compute (CHR ''-'' # ''(5)+3'') [] = (Num NaN, [])" by blast
  from i3 c3 have a5: "hd (detectedNums (scan_loop ''+-'' (CHR ''-'' # ''5+3'') scan_init)) = NaN"
    by blast
  have l4: "bracket_loop ''-5*2'' = Inr ''-5*2''" by code_simp
  have m4: "computeMD (Str ''-5*2'') = Inr (Num (Fin (- 10)))" by code_simp
  have q4: "(- 10 :: rat) < 0" by simp
  note i4 = operator_at_end_or_start [where expr = "''-5*2''" and flat = "''-5*2''"
      and q = "- 10" and con = "[]"]
  from i4 l4 m4 q4 have a6: "compute ''-5*2'' [] = (Num NaN, [])" by blast
  have c6: "CHR ''/'' \<in> set ''*/''" by simp
  have l6: "bracket_loop (CHR ''/'' # ''5'') = Inr ''/5''" by code_simp
  have n6: "\<not> non_numeric_test (numString (scan_loop ''*/'' ''/5'' scan_init))" by code_simp
  have m6: "computeMD (Str ''/5'') = Inr (Num NaN)" by code_simp
  note i6 = operator_at_end_or_start [where c = "CHR ''/''" and rest = "''5''"
      and flat = "''/5''" and con = "[]"]
  from i6 c6 l6 n6 m6 have a8: "compute (CHR ''/'' # ''5'') [] = (Str ''NaN'', [])" by blast
  have l5: "bracket_loop ''(1/0)+'' = Inl (Error ''Cannot divide by zero'')" by code_simp
  note i5 = operator_at_end_or_start [where expr = "''(1/0)+''"
      and e = "Error ''Cannot divide by zero''" and con = "[]"]
  from i5 l5 have a7: "compute ''(1/0)+'' [] =
     (Str ''Error: Cannot divide by zero'',
      [] @ [''Error whilst calculating result: Error: Cannot divide by zero''])" by blast
  from e1 a1 l1 a2 e2 l2 m2 a3 l3 m3 n3 a4 a5 l4 m4 a6 l6 n6 m6 a8 l5 a7 show ?thesis by simp
qed

text \<open>
  The claim as it was stated fails: a division by zero behind a leading operator gives the
  error text, as does one in a bracket group before a trailing operator; a leading plus
  sign before a product is parsed with the number; a malformed last buffer behind a
  leading sign gives the expression back; and behind a trailing \<^verbatim>\<open>*\<close> the value is the
  string \<^verbatim>\<open>NaN\<close>, not the number.
\<close>

theorem operator_at_end_or_start_counterexample:
  "compute ''/0'' [] =
     (Str ''Error: Cannot divide by zero'',
      [''Error whilst calculating result: Error: Cannot divide by zero'']) \<and>
   compute ''+5*2'' [] = (Num (Fin 10), []) \<and>
   compute ''-5&'' [] = (Str ''-5&'', []) \<and>
   compute ''(1/0)+'' [] =
     (Str ''Error: Cannot divide by zero'',
      [''Error whilst calculating result: Error: Cannot divide by zero'']) \<and>
   compute ''3*'' [] = (Str ''NaN'', [])"
proof -
  have "compute ''/0'' [] =
     (Str ''Error: Cannot divide by zero'',
      [''Error whilst calculating result: Error: Cannot divide by zero''])" by code_simp
  moreover have "compute ''+5*2'' [] = (Num (Fin 10), [])" by code_simp
  moreover have "compute ''-5&'' [] = (Str ''-5&'', [])" by code_simp
  moreover have "compute ''(1/0)+'' [] =
     (Str ''Error: Cannot divide by zero'',
      [''Error whilst calculating result: Error: Cannot divide by zero''])" by code_simp
  moreover have "compute ''3*'' [] = (Str ''NaN'', [])" by code_simp
  ultimately show ?thesis by blast
qed

end
